theory Spec2Isabelle
  imports Main "HOL-Library.Multiset"
begin

section \<open>Strings, exceptions and the interpreter's character tables\<close>

text \<open>
  A Python \<open>str\<close> is a sequence of Unicode code points, and \<open>chr\<close> in the decoder
  produces code points up to 511, so a string is modelled as a list of code points
  (natural numbers) and not as a list of bytes.  \<open>ustr\<close> writes a literal.
\<close>

type_synonym pystr = "nat list"

definition ustr :: "string \<Rightarrow> pystr" where
  "ustr s = map of_char s"

datatype exn = ValueError | IndexError | OverflowError

text \<open>
  \<open>str.isdigit\<close>, and the whitespace and decimal-digit tests inside \<open>int\<close>, read the
  interpreter's Unicode database.  Below 256 the database is written out
  (\<open>latin1_class\<close>: the ASCII digits are decimal digits; superscript two, three and
  one are digits without a decimal value; the whitespace characters are
  9-13, 28-32, 133 and 160).  From 256 on it is a parameter \<open>U\<close> of every function
  that reads it.
\<close>

datatype uclass = USpace | UDecimal nat | UDigit | UOther

type_synonym ucd = "nat \<Rightarrow> uclass"

definition latin1_class :: "nat \<Rightarrow> uclass" where
  "latin1_class c =
     (if (9 \<le> c \<and> c \<le> 13) \<or> (28 \<le> c \<and> c \<le> 32) \<or> c = 133 \<or> c = 160 then USpace
      else if 48 \<le> c \<and> c \<le> 57 then UDecimal (c - 48)
      else if c = 178 \<or> c = 179 \<or> c = 185 then UDigit
      else UOther)"

definition uclass_of :: "ucd \<Rightarrow> nat \<Rightarrow> uclass" where
  "uclass_of U c = (if c < 256 then latin1_class c else U c)"

definition ucd_ok :: "ucd \<Rightarrow> bool" where
  "ucd_ok U = (\<forall>c d. U c = UDecimal d \<longrightarrow> d \<le> 9)"

text \<open>\<open>c.isdigit()\<close> for a single character: decimal digits and other digits.\<close>

definition py_isdigit :: "ucd \<Rightarrow> nat \<Rightarrow> bool" where
  "py_isdigit U c = (case uclass_of U c of UDecimal d \<Rightarrow> True | UDigit \<Rightarrow> True | _ \<Rightarrow> False)"

definition py_isdecimal :: "ucd \<Rightarrow> nat \<Rightarrow> bool" where
  "py_isdecimal U c = (case uclass_of U c of UDecimal d \<Rightarrow> True | _ \<Rightarrow> False)"

definition py_unicode_isspace :: "ucd \<Rightarrow> nat \<Rightarrow> bool" where
  "py_unicode_isspace U c = (uclass_of U c = USpace)"

definition py_todecimal :: "ucd \<Rightarrow> nat \<Rightarrow> nat option" where
  "py_todecimal U c = (case uclass_of U c of UDecimal d \<Rightarrow> Some d | _ \<Rightarrow> None)"

text \<open>A small database for examples: the Arabic-Indic digits and the ideographic space.\<close>

definition sample_ucd :: ucd where
  "sample_ucd c =
     (if 1632 \<le> c \<and> c \<le> 1641 then UDecimal (c - 1632)
      else if c = 12288 then USpace
      else UOther)"

section \<open>Built-in operations\<close>

text \<open>\<open>xs[i]\<close> for a non-negative index: IndexError out of range.\<close>

definition py_index :: "'a list \<Rightarrow> nat \<Rightarrow> exn + 'a" where
  "py_index xs i = (if i < length xs then Inr (xs ! i) else Inl IndexError)"

text \<open>\<open>s.rstrip(c)\<close> for a one-character argument, and \<open>s.split(sep)\<close>.\<close>

definition rstrip :: "nat \<Rightarrow> pystr \<Rightarrow> pystr" where
  "rstrip c s = rev (dropWhile (\<lambda>x. x = c) (rev s))"

fun split_on :: "nat \<Rightarrow> pystr \<Rightarrow> pystr list" where
  "split_on sep [] = [[]]"
| "split_on sep (c # cs) =
     (if c = sep then [] # split_on sep cs
      else (case split_on sep cs of
              [] \<Rightarrow> [[c]]
            | f # fs \<Rightarrow> (c # f) # fs))"

text \<open>\<open>s.replace(a, b)\<close> for a one-character \<open>a\<close>.\<close>

definition replace_char :: "nat \<Rightarrow> pystr \<Rightarrow> pystr \<Rightarrow> pystr" where
  "replace_char a b s = concat (map (\<lambda>c. if c = a then b else [c]) s)"

text \<open>\<open>str(i)\<close> and \<open>f"{i}"\<close> for an integer: decimal, with a minus sign when negative.\<close>

fun dec_nat :: "nat \<Rightarrow> pystr" where
  "dec_nat n = (if n < 10 then [48 + n] else dec_nat (n div 10) @ [48 + n mod 10])"

declare dec_nat.simps [simp del]

definition py_str_int :: "int \<Rightarrow> pystr" where
  "py_str_int i = (if i < 0 then 45 # dec_nat (nat (- i)) else dec_nat (nat i))"

text \<open>\<open>chr(n)\<close>.\<close>

definition py_chr :: "int \<Rightarrow> exn + nat" where
  "py_chr n =
     (if n < - 2147483648 \<or> 2147483647 < n then Inl OverflowError
      else if n < 0 \<or> 1114111 < n then Inl ValueError
      else Inr (nat n))"

subsection \<open>\<open>int(s, base)\<close>\<close>

text \<open>
  \<open>int\<close> on a string first maps it to ASCII (\<open>to_ascii\<close>: a string that is already
  ASCII is kept; otherwise characters below 127 are kept, other whitespace becomes a
  blank, other decimal digits become ASCII digits, and at the first remaining character
  a question mark ends the text).  The ASCII text is then read: blanks, one sign, for
  base 2, 8 and 16 an optional prefix, digits with single underscores between them,
  blanks.  Anything else is a ValueError.  (The interpreter's configurable cap on the
  number of decimal digits is not modelled: integers are unbounded.)
\<close>

fun to_ascii_loop :: "ucd \<Rightarrow> pystr \<Rightarrow> pystr" where
  "to_ascii_loop U [] = []"
| "to_ascii_loop U (ch # r) =
     (if ch < 127 then ch # to_ascii_loop U r
      else if py_unicode_isspace U ch then 32 # to_ascii_loop U r
      else (case py_todecimal U ch of
              None \<Rightarrow> [63]
            | Some d \<Rightarrow> (48 + d) # to_ascii_loop U r))"

definition to_ascii :: "ucd \<Rightarrow> pystr \<Rightarrow> pystr" where
  "to_ascii U s = (if list_all (\<lambda>c. c < 128) s then s else to_ascii_loop U s)"

definition ascii_isspace :: "nat \<Rightarrow> bool" where
  "ascii_isspace c = ((9 \<le> c \<and> c \<le> 13) \<or> c = 32)"

definition digit_value :: "nat \<Rightarrow> nat" where
  "digit_value c =
     (if 48 \<le> c \<and> c \<le> 57 then c - 48
      else if 97 \<le> c \<and> c \<le> 122 then c - 87
      else if 65 \<le> c \<and> c \<le> 90 then c - 55
      else 37)"

text \<open>
  The digit scan: \<open>prev\<close> is the previous character (0 at the start), \<open>acc\<close> the digit
  values read so far.  It stops at the first character that is neither a digit of the
  base nor an underscore, and fails on a doubled or trailing underscore.
\<close>

fun scan_digits :: "nat \<Rightarrow> nat \<Rightarrow> pystr \<Rightarrow> nat list \<Rightarrow> exn + (nat list \<times> pystr)" where
  "scan_digits base prev [] acc = (if prev = 95 then Inl ValueError else Inr (acc, []))"
| "scan_digits base prev (c # r) acc =
     (if digit_value c < base \<or> c = 95 then
        (if c = 95 then
           (if prev = 95 then Inl ValueError else scan_digits base c r acc)
         else scan_digits base c r (acc @ [digit_value c]))
      else if prev = 95 then Inl ValueError
      else Inr (acc, c # r))"

definition skip_sign :: "pystr \<Rightarrow> int \<times> pystr" where
  "skip_sign s =
     (case s of
        [] \<Rightarrow> (1, [])
      | c # r \<Rightarrow> (if c = 43 then (1, r) else if c = 45 then (- 1, r) else (1, s)))"

definition skip_prefix :: "nat \<Rightarrow> pystr \<Rightarrow> pystr" where
  "skip_prefix base s =
     (case s of
        z # x # r \<Rightarrow>
          (if z = 48 \<and> ((base = 16 \<and> (x = 120 \<or> x = 88)) \<or>
                          (base = 8 \<and> (x = 111 \<or> x = 79)) \<or>
                          (base = 2 \<and> (x = 98 \<or> x = 66)))
           then (case r of [] \<Rightarrow> r | u # r' \<Rightarrow> (if u = 95 then r' else r))
           else s)
      | _ \<Rightarrow> s)"

definition py_int :: "ucd \<Rightarrow> nat \<Rightarrow> pystr \<Rightarrow> exn + int" where
  "py_int U base s =
     (case skip_sign (dropWhile ascii_isspace (to_ascii U s)) of
        (sign, s2) \<Rightarrow>
          (let s3 = skip_prefix base s2 in
           if s3 \<noteq> [] \<and> hd s3 = 95 then Inl ValueError
           else
             (case scan_digits base 0 s3 [] of
                Inl e \<Rightarrow> Inl e
              | Inr (ds, rest) \<Rightarrow>
                  if ds = [] then Inl ValueError
                  else if dropWhile ascii_isspace rest \<noteq> [] then Inl ValueError
                  else Inr (sign * int (foldl (\<lambda>a d. a * base + d) 0 ds)))))"

section \<open>The escaped-text decoder\<close>

definition APPLIED_STATUS_CODE :: int where
  "APPLIED_STATUS_CODE = 2"

text \<open>
  The inner \<open>for _ in range(2)\<close> loop of \<open>unescape_pg\<close>: up to \<open>n\<close> further characters
  are added to \<open>octs\<close> while they are digits; the result is \<open>octs\<close> and the new index.
\<close>

fun collect_digits :: "ucd \<Rightarrow> pystr \<Rightarrow> nat \<Rightarrow> pystr \<Rightarrow> nat \<Rightarrow> pystr \<times> nat" where
  "collect_digits U s i octs 0 = (octs, i)"
| "collect_digits U s i octs (Suc n) =
     (if i < length s \<and> py_isdigit U (s ! i)
      then collect_digits U s (i + 1) (octs @ [s ! i]) n
      else (octs, i))"

text \<open>
  \<open>try: out.append(chr(int(octs, 8)))  except Exception: out.append("\\" + octs)\<close>:
  the piece appended to \<open>out\<close>.
\<close>

definition octal_piece :: "ucd \<Rightarrow> pystr \<Rightarrow> pystr" where
  "octal_piece U octs =
     (case py_int U 8 octs of
        Inl e \<Rightarrow> 92 # octs
      | Inr v \<Rightarrow> (case py_chr v of Inl e \<Rightarrow> 92 # octs | Inr c \<Rightarrow> [c]))"

text \<open>
  The \<open>while i < L\<close> loop of \<open>unescape_pg\<close>, with the index \<open>i\<close> and the list \<open>out\<close> of
  pieces as its state.  Every read \<open>s ! i\<close> is under the guard the source has.
\<close>

function unescape_loop :: "ucd \<Rightarrow> pystr \<Rightarrow> nat \<Rightarrow> pystr list \<Rightarrow> pystr list" where
  "unescape_loop U s i out =
     (if i < length s then
        (if s ! i \<noteq> 92 then unescape_loop U s (i + 1) (out @ [[s ! i]])
         else if length s \<le> i + 1 then out @ [[92]]
         else
           (let nxt = s ! (i + 1) in
            if nxt = 110 then unescape_loop U s (i + 2) (out @ [[10]])
            else if nxt = 114 then unescape_loop U s (i + 2) (out @ [[13]])
            else if nxt = 116 then unescape_loop U s (i + 2) (out @ [[9]])
            else if nxt = 92 then unescape_loop U s (i + 2) (out @ [[92]])
            else if py_isdigit U nxt then
              (case collect_digits U s (i + 2) [nxt] 2 of
                 (octs, j) \<Rightarrow> unescape_loop U s j (out @ [octal_piece U octs]))
            else unescape_loop U s (i + 2) (out @ [[nxt]])))
      else out)"
  by pat_completeness auto
termination
proof -
  have mono: "k \<le> snd (collect_digits U s k acc n)" for U s k acc n
  proof (induction n arbitrary: k acc)
    case 0
    show ?case by simp
  next
    case (Suc n)
    have "k + 1 \<le> snd (collect_digits U s (k + 1) (acc @ [s ! k]) n)"
      by (rule Suc.IH)
    then show ?case by simp
  qed
  have step: "k \<le> j" if "(octs, j) = collect_digits U s k acc n" for U s k acc n octs j
    using mono [of k U s acc n] that [symmetric] by simp
  show ?thesis
    by (relation "measure (\<lambda>(U, s, i, out). length s - i)") (auto dest!: step)
qed

declare unescape_loop.simps [simp del]

definition unescape_pg :: "ucd \<Rightarrow> pystr \<Rightarrow> pystr option" where
  "unescape_pg U val =
     (if val = [92, 78] then None
      else if 92 \<notin> set val then Some val
      else Some (concat (unescape_loop U val 0 [])))"

text \<open>
  What the loop returns when it is run on \<open>s\<close> from index 0 with no output yet:
  \<open>"".join(out)\<close>.
\<close>

definition decode :: "ucd \<Rightarrow> pystr \<Rightarrow> pystr" where
  "decode U s = concat (unescape_loop U s 0 [])"

section \<open>Dictionaries\<close>

text \<open>
  A \<open>dict\<close> keeps its keys in insertion order, and the ranker iterates over one, so a
  dictionary is an association list with distinct keys: assigning to a key that is
  present replaces its value in place, assigning to a new key appends it.
\<close>

type_synonym ('k, 'v) dict = "('k \<times> 'v) list"

fun dict_set :: "'k \<Rightarrow> 'v \<Rightarrow> ('k, 'v) dict \<Rightarrow> ('k, 'v) dict" where
  "dict_set k v [] = [(k, v)]"
| "dict_set k v (p # ps) = (if fst p = k then (k, v) # ps else p # dict_set k v ps)"

text \<open>\<open>d.get(k, default)\<close>.\<close>

definition dict_get :: "('k, 'v) dict \<Rightarrow> 'k \<Rightarrow> 'v \<Rightarrow> 'v" where
  "dict_get d k dflt = (case map_of d k of None \<Rightarrow> dflt | Some v \<Rightarrow> v)"

text \<open>
  \<open>d[k]\<close> on a \<open>defaultdict(int)\<close>: a missing key is first inserted with the value 0.
  The result is the value and the dictionary after the read.
\<close>

definition defaultdict_getitem :: "'k \<Rightarrow> ('k, int) dict \<Rightarrow> int \<times> ('k, int) dict" where
  "defaultdict_getitem k d =
     (case map_of d k of None \<Rightarrow> (0, d @ [(k, 0)]) | Some v \<Rightarrow> (v, d))"

text \<open>\<open>counts[k] += 1\<close>: read \<open>counts[k]\<close>, then store the value plus one.\<close>

definition increment :: "'k \<Rightarrow> ('k, int) dict \<Rightarrow> ('k, int) dict" where
  "increment k d = (case defaultdict_getitem k d of (v, d1) \<Rightarrow> dict_set k (v + 1) d1)"

section \<open>The editor table loader\<close>

text \<open>\<open>line.rstrip("\n").split("\t")\<close>.\<close>

definition fields :: "pystr \<Rightarrow> pystr list" where
  "fields line = split_on 9 (rstrip 10 line)"

text \<open>\<open>x or ""\<close> for a string or \<open>None\<close>.\<close>

definition or_empty :: "pystr option \<Rightarrow> pystr" where
  "or_empty x = (case x of None \<Rightarrow> [] | Some n \<Rightarrow> (if n = [] then [] else n))"

text \<open>
  The test \<open>not line or line[0] in ("-", "C")\<close> at the head of the loader's loop body.
\<close>

definition first_char_check :: "pystr \<Rightarrow> bool" where
  "first_char_check line = (if line = [] then True else line ! 0 = 45 \<or> line ! 0 = 67)"

text \<open>
  One iteration of the loop of \<open>load_editors\<close>.  The branch of the first-character test
  is \<open>pass\<close>: the dictionary is the same on both sides.  \<open>int(parts[0])\<close> is inside
  \<open>try\<close>, so any exception there skips the line; \<open>parts[1]\<close> is outside.
\<close>

definition load_line :: "ucd \<Rightarrow> (int, pystr) dict \<Rightarrow> pystr \<Rightarrow> exn + (int, pystr) dict" where
  "load_line U eid_to_name line =
     (let d = (if first_char_check line then eid_to_name else eid_to_name);
          parts = fields line
      in if length parts < 2 then Inr d
         else
           (case (case py_index parts 0 of Inl e \<Rightarrow> Inl e | Inr p0 \<Rightarrow> py_int U 10 p0) of
              Inl e \<Rightarrow> Inr d
            | Inr eid \<Rightarrow>
                (case py_index parts 1 of
                   Inl e \<Rightarrow> Inl e
                 | Inr p1 \<Rightarrow> Inr (dict_set eid (or_empty (unescape_pg U p1)) d))))"

fun load_lines :: "ucd \<Rightarrow> (int, pystr) dict \<Rightarrow> pystr list \<Rightarrow> exn + (int, pystr) dict" where
  "load_lines U d [] = Inr d"
| "load_lines U d (l # ls) =
     (case load_line U d l of Inl e \<Rightarrow> Inl e | Inr d' \<Rightarrow> load_lines U d' ls)"

definition load_editors :: "ucd \<Rightarrow> pystr list \<Rightarrow> exn + (int, pystr) dict" where
  "load_editors U editor_lines = load_lines U [] editor_lines"

text \<open>The same loop with the first-character test deleted.\<close>

definition load_line_nocheck :: "ucd \<Rightarrow> (int, pystr) dict \<Rightarrow> pystr \<Rightarrow> exn + (int, pystr) dict" where
  "load_line_nocheck U eid_to_name line =
     (let parts = fields line
      in if length parts < 2 then Inr eid_to_name
         else
           (case (case py_index parts 0 of Inl e \<Rightarrow> Inl e | Inr p0 \<Rightarrow> py_int U 10 p0) of
              Inl e \<Rightarrow> Inr eid_to_name
            | Inr eid \<Rightarrow>
                (case py_index parts 1 of
                   Inl e \<Rightarrow> Inl e
                 | Inr p1 \<Rightarrow> Inr (dict_set eid (or_empty (unescape_pg U p1)) eid_to_name))))"

fun load_lines_nocheck ::
  "ucd \<Rightarrow> (int, pystr) dict \<Rightarrow> pystr list \<Rightarrow> exn + (int, pystr) dict" where
  "load_lines_nocheck U d [] = Inr d"
| "load_lines_nocheck U d (l # ls) =
     (case load_line_nocheck U d l of Inl e \<Rightarrow> Inl e | Inr d' \<Rightarrow> load_lines_nocheck U d' ls)"

definition load_editors_nocheck :: "ucd \<Rightarrow> pystr list \<Rightarrow> exn + (int, pystr) dict" where
  "load_editors_nocheck U editor_lines = load_lines_nocheck U [] editor_lines"

section \<open>The edit table aggregator\<close>

text \<open>
  One iteration of the loop of \<open>count_applied_edits\<close>.  The \<open>try\<close> block is
  \<open>if int(status_raw) == APPLIED_STATUS_CODE: counts[int(eid_raw)] += 1\<close>: the status is
  parsed first, the editor id only when the status is 2, and the dictionary is touched
  only after both have parsed.  Any exception in the block skips the line.
\<close>

definition count_line :: "ucd \<Rightarrow> (int, int) dict \<Rightarrow> pystr \<Rightarrow> exn + (int, int) dict" where
  "count_line U counts line =
     (let parts = fields line
      in if length parts < 4 then Inr counts
         else
           (case py_index parts 1 of
              Inl e \<Rightarrow> Inl e
            | Inr p1 \<Rightarrow>
                (case py_index parts 3 of
                   Inl e \<Rightarrow> Inl e
                 | Inr p3 \<Rightarrow>
                     (case (unescape_pg U p1, unescape_pg U p3) of
                        (Some eid_raw, Some status_raw) \<Rightarrow>
                          (case (case py_int U 10 status_raw of
                                   Inl e \<Rightarrow> Inl e
                                 | Inr st \<Rightarrow>
                                     if st = APPLIED_STATUS_CODE then
                                       (case py_int U 10 eid_raw of
                                          Inl e \<Rightarrow> Inl e
                                        | Inr eid \<Rightarrow> Inr (increment eid counts))
                                     else Inr counts) of
                             Inl e \<Rightarrow> Inr counts
                           | Inr c \<Rightarrow> Inr c)
                      | _ \<Rightarrow> Inr counts))))"

fun count_lines :: "ucd \<Rightarrow> (int, int) dict \<Rightarrow> pystr list \<Rightarrow> exn + (int, int) dict" where
  "count_lines U counts [] = Inr counts"
| "count_lines U counts (l # ls) =
     (case count_line U counts l of Inl e \<Rightarrow> Inl e | Inr c \<Rightarrow> count_lines U c ls)"

definition count_applied_edits :: "ucd \<Rightarrow> pystr list \<Rightarrow> exn + (int, int) dict" where
  "count_applied_edits U edit_lines = count_lines U [] edit_lines"

section \<open>The ranker\<close>

type_synonym row = "int \<times> pystr \<times> int"

definition row_id :: "row \<Rightarrow> int" where
  "row_id r = fst r"

definition row_count :: "row \<Rightarrow> int" where
  "row_count r = snd (snd r)"

text \<open>\<open>f"(editor #{eid})"\<close>.\<close>

definition placeholder :: "int \<Rightarrow> pystr" where
  "placeholder eid = ustr ''(editor #'' @ py_str_int eid @ ustr '')''"

text \<open>
  \<open>rows = [(eid, editors.get(eid, f"(editor #{eid})"), cnt) for eid, cnt in counts.items()]\<close>
\<close>

definition make_rows :: "(int, pystr) dict \<Rightarrow> (int, int) dict \<Rightarrow> row list" where
  "make_rows editors counts =
     map (\<lambda>(eid, cnt). (eid, dict_get editors eid (placeholder eid), cnt)) counts"

text \<open>
  \<open>xs.sort(key=f, reverse=True)\<close>: the list is reversed, sorted stably in ascending order
  of the key, and reversed again.
\<close>

definition sort_reverse :: "('a \<Rightarrow> int) \<Rightarrow> 'a list \<Rightarrow> 'a list" where
  "sort_reverse f xs = rev (sort_key f (rev xs))"

text \<open>The sort and the slice \<open>rows[:500]\<close> of \<open>main\<close>.\<close>

definition top_rows :: "(int, pystr) dict \<Rightarrow> (int, int) dict \<Rightarrow> row list" where
  "top_rows editors counts = take 500 (sort_reverse row_count (make_rows editors counts))"

section \<open>The CSV writer\<close>

text \<open>\<open>enumerate(rows, start=1)\<close>, with the index as an integer.\<close>

definition enumerate1 :: "'a list \<Rightarrow> (int \<times> 'a) list" where
  "enumerate1 xs = map (\<lambda>(i, x). (int i, x)) (List.enumerate 1 xs)"

text \<open>
  The name column: \<open>safe = (name or "").replace('"', '""')\<close>, wrapped in double quotes
  when \<open>safe\<close> holds a comma, a newline, a carriage return or a double quote.
\<close>

definition csv_name :: "pystr option \<Rightarrow> pystr" where
  "csv_name name =
     (let safe = replace_char 34 [34, 34] (or_empty name)
      in if list_ex (\<lambda>ch. ch \<in> set safe) [44, 10, 13, 34] then [34] @ safe @ [34]
         else safe)"

definition csv_header :: pystr where
  "csv_header = ustr ''rank,editor_id,editor_name,applied_edit_count'' @ [10]"

text \<open>\<open>f"{i},{eid},{safe},{cnt}\n"\<close>.\<close>

definition csv_line :: "int \<Rightarrow> int \<times> pystr option \<times> int \<Rightarrow> pystr" where
  "csv_line i r =
     (case r of (eid, name, cnt) \<Rightarrow>
        py_str_int i @ [44] @ py_str_int eid @ [44] @ csv_name name @ [44] @ py_str_int cnt @ [10])"

text \<open>
  \<open>write_csv\<close>: the text written to the file, one \<open>f.write\<close> after the other.  The file
  is opened with \<open>newline=""\<close>, so the text is written as it is.
\<close>

definition write_csv :: "(int \<times> pystr option \<times> int) list \<Rightarrow> pystr" where
  "write_csv rows = fold (\<lambda>(i, r) f. f @ csv_line i r) (enumerate1 rows) csv_header"

section \<open>The program\<close>

text \<open>
  \<open>main\<close> from the two files' lines to the text of \<open>top_editors.csv\<close>; finding and
  extracting the files, and the progress lines on the console, are left out.
\<close>

definition main :: "ucd \<Rightarrow> pystr list \<Rightarrow> pystr list \<Rightarrow> exn + pystr" where
  "main U editor_lines edit_lines =
     (case load_editors U editor_lines of
        Inl e \<Rightarrow> Inl e
      | Inr editors \<Rightarrow>
          (case count_applied_edits U edit_lines of
             Inl e \<Rightarrow> Inl e
           | Inr counts \<Rightarrow>
               Inr (write_csv (map (\<lambda>(eid, name, cnt). (eid, Some name, cnt))
                                    (top_rows editors counts)))))"

text \<open>
  The script's entry block, as the list of what it does: \<open>print\<close> writes a line to
  standard output, \<open>sys.exit(n)\<close> ends the process with status \<open>n\<close>, and otherwise
  \<open>main\<close> is called on the absolute path of the first argument.
\<close>

datatype effect =
    Write_stdout pystr
  | Write_stderr pystr
  | Exit int
  | Call_main_abspath pystr

definition usage_message :: pystr where
  "usage_message = ustr ''Usage: python mb_top_editors_overall.py <folder>''"

definition entry :: "pystr list \<Rightarrow> effect list" where
  "entry argv =
     (if length argv < 2 then [Write_stdout (usage_message @ [10]), Exit 1]
      else [Call_main_abspath (argv ! 1)])"

text \<open>What an effect list leaves on standard output and on the error stream.\<close>

fun stdout_of :: "effect list \<Rightarrow> pystr" where
  "stdout_of [] = []"
| "stdout_of (Write_stdout m # es) = m @ stdout_of es"
| "stdout_of (e # es) = stdout_of es"

fun stderr_of :: "effect list \<Rightarrow> pystr" where
  "stderr_of [] = []"
| "stderr_of (Write_stderr m # es) = m @ stderr_of es"
| "stderr_of (e # es) = stderr_of es"

section \<open>Notions of the specification\<close>

text \<open>
  The editor id of an applied edit, in the words of the specification: the line has at
  least 4 fields, fields 1 and 3 decode to strings, both parse as integers, and the
  status is 2.
\<close>

definition applied_editor :: "ucd \<Rightarrow> pystr \<Rightarrow> int option" where
  "applied_editor U line =
     (if length (fields line) < 4 then None
      else
        (case unescape_pg U (fields line ! 1) of
           None \<Rightarrow> None
         | Some e \<Rightarrow>
             (case unescape_pg U (fields line ! 3) of
                None \<Rightarrow> None
              | Some s \<Rightarrow>
                  (case py_int U 10 e of
                     Inl x \<Rightarrow> None
                   | Inr k \<Rightarrow>
                       (case py_int U 10 s of
                          Inl x \<Rightarrow> None
                        | Inr st \<Rightarrow> if st = 2 then Some k else None)))))"

text \<open>The editor ids of the applied edits of a file, in the order of the lines.\<close>

definition applied_ids :: "ucd \<Rightarrow> pystr list \<Rightarrow> int list" where
  "applied_ids U edit_lines = List.map_filter (applied_editor U) edit_lines"

text \<open>The elements of a list in the order of their first occurrence.\<close>

definition first_seen :: "'a list \<Rightarrow> 'a list" where
  "first_seen xs = rev (remdups (rev xs))"

text \<open>
  The entry an editor line contributes, in the words of the specification: the line has
  at least 2 fields and field 0 parses as an integer; the name is the decoded field 1,
  empty when it decodes to null.
\<close>

definition editor_entry :: "ucd \<Rightarrow> pystr \<Rightarrow> (int \<times> pystr) option" where
  "editor_entry U line =
     (if length (fields line) < 2 then None
      else
        (case py_int U 10 (fields line ! 0) of
           Inl x \<Rightarrow> None
         | Inr eid \<Rightarrow>
             Some (eid, (case unescape_pg U (fields line ! 1) of None \<Rightarrow> [] | Some n \<Rightarrow> n))))"

text \<open>
  The digit run after a backslash: the longest run of at most 3 characters at the head
  of \<open>t\<close> for which \<open>str.isdigit\<close> holds.
\<close>

definition digit_run :: "ucd \<Rightarrow> pystr \<Rightarrow> pystr" where
  "digit_run U t = takeWhile (py_isdigit U) (take 3 t)"

text \<open>
  The decoding rules of the specification, applied left to right over a list; the
  digits are the characters for which \<open>str.isdigit\<close> holds.
\<close>

fun pg_decode :: "ucd \<Rightarrow> pystr \<Rightarrow> pystr" where
  "pg_decode U [] = []"
| "pg_decode U (c # t) =
     (if c \<noteq> 92 then c # pg_decode U t
      else
        (case t of
           [] \<Rightarrow> [92]
         | nxt # r \<Rightarrow>
             if nxt = 110 then 10 # pg_decode U r
             else if nxt = 114 then 13 # pg_decode U r
             else if nxt = 116 then 9 # pg_decode U r
             else if nxt = 92 then 92 # pg_decode U r
             else if py_isdigit U nxt then
               octal_piece U (digit_run U t) @ pg_decode U (drop (length (digit_run U t)) t)
             else nxt # pg_decode U r))"

declare pg_decode.simps [simp del]

text \<open>
  A digit run read as an octal number: every character must be a decimal digit of value
  0 to 7.
\<close>

definition octal_digit :: "ucd \<Rightarrow> nat \<Rightarrow> bool" where
  "octal_digit U c = (case py_todecimal U c of None \<Rightarrow> False | Some d \<Rightarrow> d < 8)"

definition octal_value :: "ucd \<Rightarrow> pystr \<Rightarrow> nat option" where
  "octal_value U run =
     (if list_all (octal_digit U) run
      then Some (foldl (\<lambda>a c. 8 * a + the (py_todecimal U c)) 0 run)
      else None)"


text \<open>
  The number of applied edits of an editor in a file, and the row the specification
  gives an editor: its id, its name or the placeholder, and that number.
\<close>

definition applied_count :: "ucd \<Rightarrow> pystr list \<Rightarrow> int \<Rightarrow> int" where
  "applied_count U edit_lines k =
     int (length (filter (\<lambda>l. applied_editor U l = Some k) edit_lines))"

definition spec_row :: "ucd \<Rightarrow> (int, pystr) dict \<Rightarrow> pystr list \<Rightarrow> int \<Rightarrow> row" where
  "spec_row U editors edit_lines k =
     (k, dict_get editors k (placeholder k), applied_count U edit_lines k)"

section \<open>Properties of the entry block\<close>

text \<open>
  C9, as the code has it.  With no folder argument the entry block prints the usage
  line and exits with status 1, and does nothing else; the usage line goes to standard
  output (\<open>print\<close> without a \<open>file\<close> argument), and nothing is written to the error
  stream.
\<close>

theorem entry_missing_argument:
  "length argv < 2 \<Longrightarrow>
     entry argv = [Write_stdout (usage_message @ [10]), Exit 1] \<and>
     stdout_of (entry argv) = usage_message @ [10] \<and>
     stderr_of (entry argv) = []"
  by (simp add: entry_def)

theorem entry_missing_argument_witness:
  "length [ustr ''checkmbeditors.py''] < 2 \<and>
   entry [ustr ''checkmbeditors.py''] = [Write_stdout (usage_message @ [10]), Exit 1] \<and>
   stdout_of (entry [ustr ''checkmbeditors.py'']) = usage_message @ [10] \<and>
   stderr_of (entry [ustr ''checkmbeditors.py'']) = []"
  using entry_missing_argument [of "[ustr ''checkmbeditors.py'']"] by simp

text \<open>
  C9 as stated fails: run with the script name alone, the program leaves the error
  stream empty and the usage line on standard output.
\<close>

theorem entry_usage_not_on_stderr:
  "stderr_of (entry [ustr ''checkmbeditors.py'']) = [] \<and>
   stdout_of (entry [ustr ''checkmbeditors.py'']) = usage_message @ [10] \<and>
   usage_message \<noteq> []"
  by (simp add: entry_def usage_message_def ustr_def)

section \<open>Properties of the loader's first-character test\<close>

lemma load_line_nocheck_eq: "load_line U d line = load_line_nocheck U d line"
  by (simp add: load_line_def load_line_nocheck_def)

lemma load_lines_nocheck_eq: "load_lines U d ls = load_lines_nocheck U d ls"
  by (induction ls arbitrary: d) (simp_all add: load_line_nocheck_eq split: sum.splits)

text \<open>
  C10.  \<open>load_editors\<close> equals the loader without the first-character test.  What a line
  does to the dictionary depends only on the number of its fields and on whether field 0
  parses as an integer.  A line on which the test is true is loaded like any other: the
  line \<open>-5<TAB>x\<close> stores the name \<open>x\<close> under the id -5.
\<close>

theorem first_char_check_no_effect:
  "load_editors U ls = load_editors_nocheck U ls \<and>
   load_line U d line =
     (if length (fields line) < 2 then Inr d
      else (case py_int U 10 (fields line ! 0) of
              Inl e \<Rightarrow> Inr d
            | Inr eid \<Rightarrow> Inr (dict_set eid (or_empty (unescape_pg U (fields line ! 1))) d))) \<and>
   first_char_check (ustr ''-5'' @ [9] @ ustr ''x'' @ [10]) \<and>
   load_editors U [ustr ''-5'' @ [9] @ ustr ''x'' @ [10]] = Inr [(- 5, ustr ''x'')]"
proof -
  have a: "load_editors U ls = load_editors_nocheck U ls"
    by (simp add: load_editors_def load_editors_nocheck_def load_lines_nocheck_eq)
  have b: "load_line U d line =
     (if length (fields line) < 2 then Inr d
      else (case py_int U 10 (fields line ! 0) of
              Inl e \<Rightarrow> Inr d
            | Inr eid \<Rightarrow> Inr (dict_set eid (or_empty (unescape_pg U (fields line ! 1))) d)))"
    by (simp add: load_line_def py_index_def Let_def split: sum.splits)
  have c: "first_char_check (ustr ''-5'' @ [9] @ ustr ''x'' @ [10])"
    by (simp add: first_char_check_def ustr_def)
  have l: "ustr ''-5'' @ [9] @ ustr ''x'' @ [10] = [45, 53, 9, 120, 10]"
    by (simp add: ustr_def)
  have f: "fields [45, 53, 9, 120, 10] = [[45, 53], [120]]"
    by (simp add: fields_def rstrip_def)
  have i: "py_int U 10 [45, 53] = Inr (- 5)"
    by (simp add: py_int_def to_ascii_def ascii_isspace_def skip_sign_def skip_prefix_def
        digit_value_def)
  have u: "unescape_pg U [120] = Some [120]"
    by (simp add: unescape_pg_def)
  have "load_line U [] [45, 53, 9, 120, 10] = Inr [(- 5, [120])]"
    by (simp add: load_line_nocheck_eq load_line_nocheck_def f py_index_def i u or_empty_def)
  then have e: "load_editors U [ustr ''-5'' @ [9] @ ustr ''x'' @ [10]] = Inr [(- 5, ustr ''x'')]"
    by (simp add: load_editors_def l ustr_def)
  from a b c e show ?thesis by blast
qed

theorem first_char_check_no_effect_witness:
  "load_editors sample_ucd [ustr ''COPY'', [9]] = load_editors_nocheck sample_ucd [ustr ''COPY'', [9]] \<and>
   load_line sample_ucd [] (ustr ''C7'') = Inr []"
  using first_char_check_no_effect [of sample_ucd "[ustr ''COPY'', [9]]" "[]" "ustr ''C7''"]
  by (simp add: fields_def rstrip_def ustr_def)

section \<open>Properties of the CSV writer\<close>

lemma fold_append_concat:
  "fold (\<lambda>(i, r) f. f @ g i r) xs init = init @ concat (map (\<lambda>(i, r). g i r) xs)"
  by (induction xs arbitrary: init) (simp_all add: case_prod_beta)

lemma set_replace_quote: "set (replace_char 34 [34, 34] n) = set n"
  by (induction n) (auto simp: replace_char_def)

lemma replace_char_absent: "a \<notin> set n \<Longrightarrow> replace_char a b n = n"
  by (induction n) (auto simp: replace_char_def)

lemma csv_name_spec:
  "csv_name name =
     (if 44 \<in> set (or_empty name) \<or> 34 \<in> set (or_empty name) \<or>
         10 \<in> set (or_empty name) \<or> 13 \<in> set (or_empty name)
      then [34] @ concat (map (\<lambda>c. if c = 34 then [34, 34] else [c]) (or_empty name)) @ [34]
      else or_empty name)"
proof (cases "34 \<in> set (or_empty name)")
  case True
  then show ?thesis
    by (simp add: csv_name_def Let_def set_replace_quote) (simp add: replace_char_def)
next
  case False
  then have "replace_char 34 [34, 34] (or_empty name) = or_empty name"
    by (rule replace_char_absent)
  moreover have "concat (map (\<lambda>c. if c = 34 then [34, 34] else [c]) (or_empty name)) = or_empty name"
    using \<open>replace_char 34 [34, 34] (or_empty name) = or_empty name\<close>
    by (simp add: replace_char_def)
  ultimately show ?thesis
    by (auto simp: csv_name_def Let_def)
qed

lemma enumerate1_zip:
  "enumerate1 rows = map (\<lambda>(i, r). (int i, r)) (zip [1..<Suc (length rows)] rows)"
  by (simp add: enumerate1_def enumerate_eq_zip)

text \<open>
  C6.  The text written by \<open>write_csv\<close> is the header line followed, for each row and
  its rank counted from 1, by \<open>rank,editor_id,name,count\<close> and a newline.  The name (the
  empty string for \<open>None\<close>) is wrapped in double quotes, with each of its double quotes
  doubled, exactly when it holds a comma, a double quote, a newline or a carriage
  return; otherwise it is written as it is.
\<close>

theorem write_csv_format:
  "write_csv rows =
     ustr ''rank,editor_id,editor_name,applied_edit_count'' @ [10] @
     concat (map (\<lambda>(i, eid, name, cnt).
        py_str_int (int i) @ [44] @ py_str_int eid @ [44] @
        (if 44 \<in> set (or_empty name) \<or> 34 \<in> set (or_empty name) \<or>
            10 \<in> set (or_empty name) \<or> 13 \<in> set (or_empty name)
         then [34] @ concat (map (\<lambda>c. if c = 34 then [34, 34] else [c]) (or_empty name)) @ [34]
         else or_empty name) @ [44] @ py_str_int cnt @ [10])
       (zip [1..<Suc (length rows)] rows))"
proof -
  have line: "csv_line (int i) (eid, name, cnt) =
        py_str_int (int i) @ [44] @ py_str_int eid @ [44] @
        (if 44 \<in> set (or_empty name) \<or> 34 \<in> set (or_empty name) \<or>
            10 \<in> set (or_empty name) \<or> 13 \<in> set (or_empty name)
         then [34] @ concat (map (\<lambda>c. if c = 34 then [34, 34] else [c]) (or_empty name)) @ [34]
         else or_empty name) @ [44] @ py_str_int cnt @ [10]" for i eid name cnt
    unfolding csv_line_def csv_name_spec by simp
  have "write_csv rows = csv_header @ concat (map (\<lambda>(i, r). csv_line i r) (enumerate1 rows))"
    unfolding write_csv_def by (rule fold_append_concat)
  also have "map (\<lambda>(i, r). csv_line i r) (enumerate1 rows)
      = map (\<lambda>(i, r). csv_line (int i) r) (zip [1..<Suc (length rows)] rows)"
    by (simp add: enumerate1_zip case_prod_beta o_def)
  also have "\<dots> = map (\<lambda>(i, eid, name, cnt).
        py_str_int (int i) @ [44] @ py_str_int eid @ [44] @
        (if 44 \<in> set (or_empty name) \<or> 34 \<in> set (or_empty name) \<or>
            10 \<in> set (or_empty name) \<or> 13 \<in> set (or_empty name)
         then [34] @ concat (map (\<lambda>c. if c = 34 then [34, 34] else [c]) (or_empty name)) @ [34]
         else or_empty name) @ [44] @ py_str_int cnt @ [10])
       (zip [1..<Suc (length rows)] rows)"
    by (rule map_cong) (auto simp: line)
  finally show ?thesis
    by (simp add: csv_header_def)
qed

lemma dec_nat_small: "n < 10 \<Longrightarrow> dec_nat n = [48 + n]"
  by (simp add: dec_nat.simps)

theorem write_csv_format_witness:
  "write_csv [(7, Some (ustr ''Doe, Jane''), 3), (8, Some (ustr ''Jane '' @ [34] @ ustr ''J'' @ [34] @ ustr '' Doe''), 2)] =
     ustr ''rank,editor_id,editor_name,applied_edit_count'' @ [10] @
     ustr ''1,7,'' @ [34] @ ustr ''Doe, Jane'' @ [34] @ ustr '',3'' @ [10] @
     ustr ''2,8,'' @ [34] @ ustr ''Jane '' @ [34, 34] @ ustr ''J'' @ [34, 34] @ ustr '' Doe'' @ [34] @ ustr '',2'' @ [10]"
  using write_csv_format [of "[(7, Some (ustr ''Doe, Jane''), 3), (8, Some (ustr ''Jane '' @ [34] @ ustr ''J'' @ [34] @ ustr '' Doe''), 2)]"]
  by (simp add: ustr_def or_empty_def py_str_int_def dec_nat_small upt_rec)

section \<open>Properties of the ranker\<close>

lemma mset_sort_reverse: "mset (sort_reverse f xs) = mset xs"
  by (simp add: sort_reverse_def)

lemma sorted_sort_reverse: "sorted_wrt (\<lambda>a b. f b \<le> f a) (sort_reverse f xs)"
proof -
  have "sorted (map f (sort_key f (rev xs)))"
    by (rule sorted_sort_key)
  then have "sorted_wrt (\<lambda>a b. f a \<le> f b) (sort_key f (rev xs))"
    by (simp add: sorted_wrt_map)
  then show ?thesis
    by (simp add: sort_reverse_def sorted_wrt_rev)
qed

lemma sort_reverse_stable:
  "filter (\<lambda>r. f r = k) (sort_reverse f xs) = filter (\<lambda>r. f r = k) xs"
proof -
  have "filter (\<lambda>r. f r = k) (sort_reverse f xs) = rev (filter (\<lambda>r. f r = k) (sort_key f (rev xs)))"
    by (simp add: sort_reverse_def rev_filter)
  also have "\<dots> = rev (filter (\<lambda>r. f r = k) (rev xs))"
    by (simp only: sort_key_stable)
  also have "\<dots> = filter (\<lambda>r. f r = k) xs"
    by (simp add: rev_filter)
  finally show ?thesis .
qed

lemma length_sort_reverse: "length (sort_reverse f xs) = length xs"
  by (simp add: sort_reverse_def)

lemma row_id_make_rows: "map row_id (make_rows editors counts) = map fst counts"
  by (simp add: make_rows_def row_id_def case_prod_beta o_def)

lemma distinct_top_rows:
  assumes "distinct (map fst counts)"
  shows "distinct (map row_id (top_rows editors counts))"
proof -
  have "mset (map row_id (sort_reverse row_count (make_rows editors counts)))
      = image_mset row_id (mset (sort_reverse row_count (make_rows editors counts)))"
    by simp
  also have "\<dots> = image_mset row_id (mset (make_rows editors counts))"
    by (simp only: mset_sort_reverse)
  also have "\<dots> = mset (map row_id (make_rows editors counts))"
    by simp
  finally have "mset (map row_id (sort_reverse row_count (make_rows editors counts)))
      = mset (map fst counts)"
    by (simp only: row_id_make_rows)
  then have "distinct (map row_id (sort_reverse row_count (make_rows editors counts)))"
    using assms by (metis mset_eq_imp_distinct_iff)
  then show ?thesis
    unfolding top_rows_def take_map [symmetric] by (rule distinct_take)
qed

lemma enumerate1_ranks: "map fst (enumerate1 xs) = map int [1..<Suc (length xs)]"
proof -
  have "map fst (map (\<lambda>(i, x). (int i, x)) ys) = map int (map fst ys)"
    for ys :: "(nat \<times> 'a) list"
    by (induction ys) auto
  then have "map fst (enumerate1 xs) = map int (map fst (List.enumerate 1 xs))"
    unfolding enumerate1_def .
  also have "map fst (List.enumerate 1 xs) = [1..<1 + length xs]"
    by (rule map_fst_enumerate)
  finally show ?thesis
    by (simp only: plus_1_eq_Suc)
qed

text \<open>
  C1.  The ranker makes one row per entry of the count dictionary, in its insertion
  order, with the editor's name or, when the id has no name, the placeholder
  \<open>(editor #<id>)\<close>.  The sorted rows are a permutation of these rows, in descending
  order of the count, and the rows of each count keep the order they had.  The result is
  the first 500 sorted rows (all of them when there are fewer), one row per id when the
  keys are distinct, and \<open>enumerate\<close> numbers them 1..N.  On the counts
  \<open>{1:5, 2:9, 3:9, 4:1}\<close> and the names \<open>{1:"A", 2:"B", 3:"C"}\<close> the order is
  2, 3, 1, 4 and id 4 is named \<open>(editor #4)\<close>.
\<close>

theorem ranker_spec:
  "make_rows editors counts =
     map (\<lambda>(eid, cnt).
            (eid,
             (case map_of editors eid of
                Some n \<Rightarrow> n
              | None \<Rightarrow> ustr ''(editor #'' @ py_str_int eid @ ustr '')''),
             cnt)) counts \<and>
   mset (sort_reverse row_count (make_rows editors counts)) = mset (make_rows editors counts) \<and>
   sorted_wrt (\<lambda>a b. row_count b \<le> row_count a)
     (sort_reverse row_count (make_rows editors counts)) \<and>
   (\<forall>k. filter (\<lambda>r. row_count r = k) (sort_reverse row_count (make_rows editors counts))
        = filter (\<lambda>r. row_count r = k) (make_rows editors counts)) \<and>
   top_rows editors counts = take 500 (sort_reverse row_count (make_rows editors counts)) \<and>
   length (top_rows editors counts) = min 500 (length counts) \<and>
   (distinct (map fst counts) \<longrightarrow> distinct (map row_id (top_rows editors counts))) \<and>
   map fst (enumerate1 (top_rows editors counts))
     = map int [1..<Suc (length (top_rows editors counts))] \<and>
   top_rows [(1, ustr ''A''), (2, ustr ''B''), (3, ustr ''C'')] [(1, 5), (2, 9), (3, 9), (4, 1)]
     = [(2, ustr ''B'', 9), (3, ustr ''C'', 9), (1, ustr ''A'', 5), (4, ustr ''(editor #4)'', 1)]"
proof -
  have a: "make_rows editors counts =
     map (\<lambda>(eid, cnt).
            (eid,
             (case map_of editors eid of
                Some n \<Rightarrow> n
              | None \<Rightarrow> ustr ''(editor #'' @ py_str_int eid @ ustr '')''),
             cnt)) counts"
    by (simp add: make_rows_def dict_get_def placeholder_def)
  have f: "length (top_rows editors counts) = min 500 (length counts)"
    by (simp add: top_rows_def length_sort_reverse make_rows_def min.commute)
  have ex: "top_rows [(1, ustr ''A''), (2, ustr ''B''), (3, ustr ''C'')] [(1, 5), (2, 9), (3, 9), (4, 1)]
     = [(2, ustr ''B'', 9), (3, ustr ''C'', 9), (1, ustr ''A'', 5), (4, ustr ''(editor #4)'', 1)]"
    by code_simp
  show ?thesis
    using a f ex mset_sort_reverse [of row_count "make_rows editors counts"]
      sorted_sort_reverse [of row_count "make_rows editors counts"]
      sort_reverse_stable [of row_count _ "make_rows editors counts"]
      distinct_top_rows [of counts editors]
      enumerate1_ranks [of "top_rows editors counts"]
    unfolding top_rows_def [of editors counts]
    by blast
qed

theorem ranker_spec_witness:
  "distinct (map fst [(1 :: int, 5 :: int), (2, 9)]) \<and>
   distinct (map row_id (top_rows [] [(1, 5), (2, 9)])) \<and>
   length (top_rows [] [(1, 5), (2, 9)]) = 2"
proof -
  have d: "distinct (map fst [(1 :: int, 5 :: int), (2, 9)])"
    by simp
  have r: "length (top_rows [] [(1, 5), (2, 9)]) = min 500 (length [(1 :: int, 5 :: int), (2, 9)])"
    and i: "distinct (map fst [(1 :: int, 5 :: int), (2, 9)]) \<longrightarrow>
            distinct (map row_id (top_rows [] [(1, 5), (2, 9)]))"
    using ranker_spec [of "[]" "[(1, 5), (2, 9)]"] by blast+
  from d r i show ?thesis by simp
qed

section \<open>Properties of the aggregator\<close>

lemma map_of_dict_set: "map_of (dict_set k v d) = (map_of d)(k \<mapsto> v)"
  by (induction d) (auto simp: fun_eq_iff)

lemma keys_dict_set:
  "map fst (dict_set k v d) = (if k \<in> fst ` set d then map fst d else map fst d @ [k])"
  by (induction d) auto

lemma map_of_increment:
  "map_of (increment k d) = (map_of d)(k \<mapsto> dict_get d k 0 + 1)"
  by (auto simp: increment_def defaultdict_getitem_def dict_get_def map_of_dict_set fun_eq_iff
      map_add_def split: option.splits)

lemma keys_increment:
  "map fst (increment k d) = (if k \<in> fst ` set d then map fst d else map fst d @ [k])"
  by (auto simp: increment_def defaultdict_getitem_def keys_dict_set map_of_eq_None_iff
      split: option.splits dest: map_of_SomeD intro: rev_image_eqI)

lemma count_line_applied:
  "count_line U counts line =
     Inr (case applied_editor U line of None \<Rightarrow> counts | Some k \<Rightarrow> increment k counts)"
  by (simp add: count_line_def applied_editor_def py_index_def Let_def APPLIED_STATUS_CODE_def
      split: option.splits sum.splits)

text \<open>
  C2.  One line of the edit file.  When the line has at least 4 fields, fields 1 and 3
  decode to strings \<open>e\<close> and \<open>s\<close>, \<open>e\<close> parses as the integer \<open>k\<close> and \<open>s\<close> parses as 2,
  the step returns without an exception a dictionary in which the counter of \<open>k\<close>
  (0 when absent) is one higher and every other key is as before.  In every other case
  the step returns the dictionary unchanged, without an exception.
\<close>

theorem count_line_spec:
  "(4 \<le> length (fields line) \<and>
    unescape_pg U (fields line ! 1) = Some e \<and>
    unescape_pg U (fields line ! 3) = Some s \<and>
    py_int U 10 e = Inr k \<and> py_int U 10 s = Inr 2
    \<longrightarrow> (\<exists>c. count_line U counts line = Inr c \<and>
             dict_get c k 0 = dict_get counts k 0 + 1 \<and>
             (\<forall>j. j \<noteq> k \<longrightarrow> map_of c j = map_of counts j))) \<and>
   (\<not> (4 \<le> length (fields line) \<and>
       (\<exists>e s k. unescape_pg U (fields line ! 1) = Some e \<and>
                unescape_pg U (fields line ! 3) = Some s \<and>
                py_int U 10 e = Inr k \<and> py_int U 10 s = Inr 2))
    \<longrightarrow> count_line U counts line = Inr counts)"
proof (intro conjI impI)
  assume a: "4 \<le> length (fields line) \<and>
    unescape_pg U (fields line ! 1) = Some e \<and>
    unescape_pg U (fields line ! 3) = Some s \<and>
    py_int U 10 e = Inr k \<and> py_int U 10 s = Inr 2"
  then have "applied_editor U line = Some k"
    by (simp add: applied_editor_def)
  then have "count_line U counts line = Inr (increment k counts)"
    by (simp add: count_line_applied)
  moreover have "dict_get (increment k counts) k 0 = dict_get counts k 0 + 1"
    by (simp add: dict_get_def [of "increment k counts"] map_of_increment)
  moreover have "\<forall>j. j \<noteq> k \<longrightarrow> map_of (increment k counts) j = map_of counts j"
    by (simp add: map_of_increment)
  ultimately show "\<exists>c. count_line U counts line = Inr c \<and>
             dict_get c k 0 = dict_get counts k 0 + 1 \<and>
             (\<forall>j. j \<noteq> k \<longrightarrow> map_of c j = map_of counts j)"
    by blast
next
  assume n: "\<not> (4 \<le> length (fields line) \<and>
       (\<exists>e s k. unescape_pg U (fields line ! 1) = Some e \<and>
                unescape_pg U (fields line ! 3) = Some s \<and>
                py_int U 10 e = Inr k \<and> py_int U 10 s = Inr 2))"
  have "applied_editor U line = None"
  proof (rule ccontr)
    assume "applied_editor U line \<noteq> None"
    then obtain k where "applied_editor U line = Some k" by blast
    then have "4 \<le> length (fields line) \<and>
       (\<exists>e s k. unescape_pg U (fields line ! 1) = Some e \<and>
                unescape_pg U (fields line ! 3) = Some s \<and>
                py_int U 10 e = Inr k \<and> py_int U 10 s = Inr 2)"
      by (auto simp: applied_editor_def split: if_splits option.splits sum.splits)
    with n show False by blast
  qed
  then show "count_line U counts line = Inr counts"
    by (simp add: count_line_applied)
qed


lemma applied_ids_Cons:
  "applied_ids U (l # ls) =
     (case applied_editor U l of None \<Rightarrow> applied_ids U ls | Some k \<Rightarrow> k # applied_ids U ls)"
  by (simp add: applied_ids_def split: option.splits)

lemma count_lines_fold:
  "count_lines U c ls = Inr (fold increment (applied_ids U ls) c)"
proof (induction ls arbitrary: c)
  case Nil
  show ?case by (simp add: applied_ids_def)
next
  case (Cons l ls)
  show ?case
    by (cases "applied_editor U l") (simp_all add: count_line_applied Cons.IH applied_ids_Cons)
qed

lemma distinct_increment: "distinct (map fst d) \<Longrightarrow> distinct (map fst (increment k d))"
  by (simp add: keys_increment)

lemma distinct_fold_increment:
  "distinct (map fst d) \<Longrightarrow> distinct (map fst (fold increment ids d))"
  by (induction ids arbitrary: d) (simp_all add: distinct_increment)

lemma remdups_drop_mid: "k \<in> set b \<Longrightarrow> remdups (a @ k # b) = remdups (a @ b)"
  by (induction a) auto

lemma first_seen_drop_mid: "k \<in> set xs \<Longrightarrow> first_seen (xs @ k # ys) = first_seen (xs @ ys)"
  by (simp add: first_seen_def remdups_drop_mid)

lemma first_seen_distinct: "distinct xs \<Longrightarrow> first_seen xs = xs"
  by (simp add: first_seen_def distinct_remdups_id)

lemma keys_fold_increment:
  "distinct (map fst d) \<Longrightarrow> map fst (fold increment ids d) = first_seen (map fst d @ ids)"
proof (induction ids arbitrary: d)
  case Nil
  then show ?case by (simp add: first_seen_distinct)
next
  case (Cons k ids)
  have "map fst (fold increment (k # ids) d) = first_seen (map fst (increment k d) @ ids)"
    using Cons.IH [of "increment k d"] Cons.prems by (simp add: distinct_increment)
  also have "\<dots> = first_seen (map fst d @ k # ids)"
  proof (cases "k \<in> fst ` set d")
    case True
    then have "k \<in> set (map fst d)" by simp
    then have "first_seen (map fst d @ k # ids) = first_seen (map fst d @ ids)"
      by (rule first_seen_drop_mid)
    with True show ?thesis by (simp add: keys_increment)
  next
    case False
    then show ?thesis by (simp add: keys_increment)
  qed
  finally show ?case .
qed

lemma dict_get_increment:
  "dict_get (increment j d) k 0 = (if k = j then dict_get d j 0 + 1 else dict_get d k 0)"
  by (simp add: dict_get_def map_of_increment)

lemma key_set_increment: "fst ` set (increment j d) = insert j (fst ` set d)"
proof -
  have "set (map fst (increment j d)) = insert j (set (map fst d))"
    unfolding keys_increment by auto
  then show ?thesis by simp
qed

lemma map_of_fold_increment:
  "map_of (fold increment ids d) k =
     (if k \<in> set ids \<or> k \<in> fst ` set d
      then Some (dict_get d k 0 + int (count_list ids k)) else None)"
proof (induction ids arbitrary: d)
  case Nil
  show ?case
    by (auto simp: dict_get_def map_of_eq_None_iff split: option.splits)
next
  case (Cons j ids)
  show ?case
    by (simp add: Cons.IH dict_get_increment key_set_increment)
qed

lemma dict_from_keys:
  "distinct (map fst d) \<Longrightarrow> d = map (\<lambda>k. (k, the (map_of d k))) (map fst d)"
proof (induction d)
  case Nil
  show ?case by simp
next
  case (Cons p d)
  have "map (\<lambda>k. (k, the (map_of (p # d) k))) (map fst d)
      = map (\<lambda>k. (k, the (map_of d k))) (map fst d)"
    using Cons.prems by (intro map_cong) (auto simp: rev_image_eqI)
  with Cons show ?case by (cases p) simp
qed

lemma count_applied_edits_eq:
  "count_applied_edits U ls =
     Inr (map (\<lambda>k. (k, int (count_list (applied_ids U ls) k))) (first_seen (applied_ids U ls)))"
proof -
  let ?ids = "applied_ids U ls"
  let ?d = "fold increment ?ids []"
  have dist: "distinct (map fst ?d)"
    by (rule distinct_fold_increment) simp
  have keys: "map fst ?d = first_seen ?ids"
    using keys_fold_increment [of "[]" ?ids] by simp
  have vals: "map_of ?d k = (if k \<in> set ?ids then Some (int (count_list ?ids k)) else None)" for k
    by (simp add: map_of_fold_increment dict_get_def)
  have mem: "set (first_seen ?ids) = set ?ids"
    by (simp add: first_seen_def)
  have "?d = map (\<lambda>k. (k, the (map_of ?d k))) (map fst ?d)"
    using dist by (rule dict_from_keys)
  also have "\<dots> = map (\<lambda>k. (k, int (count_list ?ids k))) (first_seen ?ids)"
    unfolding keys by (rule map_cong) (simp_all add: vals mem)
  finally show ?thesis
    by (simp add: count_applied_edits_def count_lines_fold)
qed


lemma count_applied_ids:
  "count_list (applied_ids U ls) k = length (filter (\<lambda>l. applied_editor U l = Some k) ls)"
  by (induction ls) (auto simp: applied_ids_Cons applied_ids_def split: option.splits)

lemma set_applied_ids:
  "k \<in> set (applied_ids U ls) \<longleftrightarrow> (\<exists>l \<in> set ls. applied_editor U l = Some k)"
  by (induction ls) (auto simp: applied_ids_Cons applied_ids_def split: option.splits)

lemma set_top_rows: "set (top_rows editors counts) \<subseteq> set (make_rows editors counts)"
proof -
  have "set (sort_reverse row_count (make_rows editors counts)) = set (make_rows editors counts)"
    by (rule mset_eq_setD) (rule mset_sort_reverse)
  then show ?thesis
    unfolding top_rows_def using set_take_subset by fastforce
qed

lemma make_rows_entry:
  "r \<in> set (make_rows editors counts) \<Longrightarrow> (row_id r, row_count r) \<in> set counts"
  by (auto simp: make_rows_def row_count_def row_id_def)

text \<open>
  C7.  The aggregator returns for every sequence of lines.  Every key of its result has
  a count of at least 1, equal to the number of applied edits of that editor; a key is
  present exactly when some line is an applied edit of that editor; and every row of the
  ranked output has a count of at least 1.
\<close>

theorem applied_counts_positive:
  "\<exists>counts. count_applied_edits U edit_lines = Inr counts \<and>
     (\<forall>(k, v) \<in> set counts.
        1 \<le> v \<and> v = int (length (filter (\<lambda>l. applied_editor U l = Some k) edit_lines))) \<and>
     (\<forall>k. k \<in> fst ` set counts \<longleftrightarrow> (\<exists>l \<in> set edit_lines. applied_editor U l = Some k)) \<and>
     (\<forall>r \<in> set (top_rows editors counts). 1 \<le> row_count r)"
proof -
  let ?ids = "applied_ids U edit_lines"
  let ?counts = "map (\<lambda>k. (k, int (count_list ?ids k))) (first_seen ?ids)"
  have mem: "set (first_seen ?ids) = set ?ids"
    by (simp add: first_seen_def)
  have run: "count_applied_edits U edit_lines = Inr ?counts"
    by (rule count_applied_edits_eq)
  have pos: "1 \<le> v \<and> v = int (length (filter (\<lambda>l. applied_editor U l = Some k) edit_lines))"
    if "(k, v) \<in> set ?counts" for k v
  proof -
    from that have k: "k \<in> set ?ids" and v: "v = int (count_list ?ids k)"
      by (auto simp: mem)
    from k have "0 < count_list ?ids k"
      by (metis count_list_0_iff gr0I)
    then have "1 \<le> int (count_list ?ids k)"
      by linarith
    with v show ?thesis
      by (simp only: count_applied_ids)
  qed
  have keys: "k \<in> fst ` set ?counts \<longleftrightarrow> (\<exists>l \<in> set edit_lines. applied_editor U l = Some k)" for k
  proof -
    have "fst ` set ?counts = set ?ids"
      by (simp add: mem image_image)
    then show ?thesis
      by (simp add: set_applied_ids)
  qed
  have rows: "1 \<le> row_count r" if "r \<in> set (top_rows editors ?counts)" for r
  proof -
    from that set_top_rows have "r \<in> set (make_rows editors ?counts)"
      by blast
    then have "(row_id r, row_count r) \<in> set ?counts"
      by (rule make_rows_entry)
    with pos show ?thesis by blast
  qed
  from run pos keys rows show ?thesis
    by (intro exI [of _ ?counts]) blast
qed


theorem count_line_spec_witness:
  "(\<exists>c. count_line sample_ucd [(7, 1)]
          (ustr ''1'' @ [9] @ ustr ''7'' @ [9] @ ustr ''0'' @ [9] @ ustr ''2'' @ [10]) = Inr c \<and>
        dict_get c 7 0 = 2) \<and>
   count_line sample_ucd [(7, 1)] (ustr ''1'' @ [9] @ ustr ''7'') = Inr [(7, 1)]"
proof -
  let ?l = "ustr ''1'' @ [9] @ ustr ''7'' @ [9] @ ustr ''0'' @ [9] @ ustr ''2'' @ [10]"
  have f: "fields ?l = [[49], [55], [48], [50]]"
    by code_simp
  have h: "4 \<le> length (fields ?l) \<and>
    unescape_pg sample_ucd (fields ?l ! 1) = Some [55] \<and>
    unescape_pg sample_ucd (fields ?l ! 3) = Some [50] \<and>
    py_int sample_ucd 10 [55] = Inr 7 \<and> py_int sample_ucd 10 [50] = Inr 2"
    unfolding f by code_simp
  have g: "dict_get [(7 :: int, 1 :: int)] 7 0 + 1 = 2"
    by code_simp
  have n: "\<not> (4 \<le> length (fields (ustr ''1'' @ [9] @ ustr ''7'')) \<and>
       (\<exists>e s k. unescape_pg sample_ucd (fields (ustr ''1'' @ [9] @ ustr ''7'') ! 1) = Some e \<and>
                unescape_pg sample_ucd (fields (ustr ''1'' @ [9] @ ustr ''7'') ! 3) = Some s \<and>
                py_int sample_ucd 10 e = Inr k \<and> py_int sample_ucd 10 s = Inr 2))"
    by (simp add: fields_def rstrip_def ustr_def)
  from count_line_spec [of ?l sample_ucd "[55]" "[50]" 7 "[(7, 1)]"] h g
  have "\<exists>c. count_line sample_ucd [(7, 1)] ?l = Inr c \<and> dict_get c 7 0 = 2"
    by auto
  moreover
  from count_line_spec [of "ustr ''1'' @ [9] @ ustr ''7''" sample_ucd _ _ _ "[(7, 1)]"] n
  have "count_line sample_ucd [(7, 1)] (ustr ''1'' @ [9] @ ustr ''7'') = Inr [(7, 1)]"
    by blast
  ultimately show ?thesis by blast
qed

theorem applied_counts_positive_witness:
  "count_applied_edits sample_ucd
     [ustr ''1'' @ [9] @ ustr ''7'' @ [9] @ ustr ''0'' @ [9] @ ustr ''2'' @ [10]] = Inr [(7, 1)] \<and>
   (7, 1) \<in> set [(7 :: int, 1 :: int)] \<and>
   7 \<in> fst ` set [(7 :: int, 1 :: int)] \<and>
   top_rows [] [(7, 1)] = [(7, ustr ''(editor #7)'', 1)] \<and>
   1 \<le> row_count (7, ustr ''(editor #7)'', 1)"
proof -
  let ?ls = "[ustr ''1'' @ [9] @ ustr ''7'' @ [9] @ ustr ''0'' @ [9] @ ustr ''2'' @ [10]]"
  have e: "count_applied_edits sample_ucd ?ls = Inr [(7, 1)]"
    by code_simp
  have t: "top_rows [] [(7, 1)] = [(7, ustr ''(editor #7)'', 1)]"
    by code_simp
  from applied_counts_positive [of sample_ucd ?ls "[]"] e
  have "\<forall>r \<in> set (top_rows [] [(7, 1)]). 1 \<le> row_count r"
    by auto
  then have "1 \<le> row_count (7, ustr ''(editor #7)'', 1)"
    unfolding t by simp
  with e t show ?thesis by simp
qed

section \<open>Properties of the loader\<close>

lemma or_empty_eq: "or_empty x = (case x of None \<Rightarrow> [] | Some n \<Rightarrow> n)"
  by (simp add: or_empty_def split: option.splits)

lemma load_line_entry:
  "load_line U d line =
     Inr (case editor_entry U line of None \<Rightarrow> d | Some (k, n) \<Rightarrow> dict_set k n d)"
  by (simp add: load_line_def editor_entry_def py_index_def Let_def or_empty_eq
      split: sum.splits)

lemma load_lines_fold:
  "load_lines U d ls =
     Inr (fold (\<lambda>(k, n). dict_set k n) (List.map_filter (editor_entry U) ls) d)"
proof (induction ls arbitrary: d)
  case Nil
  show ?case by simp
next
  case (Cons l ls)
  show ?case
    by (cases "editor_entry U l") (auto simp: load_line_entry Cons.IH)
qed

lemma map_of_fold_dict_set:
  "map_of (fold (\<lambda>(k, n). dict_set k n) es d) = map_of d ++ map_of (rev es)"
proof (induction es arbitrary: d)
  case Nil
  show ?case by simp
next
  case (Cons e es)
  obtain k n where e: "e = (k, n)" by (cases e)
  have "fold (\<lambda>(k, n). dict_set k n) (e # es) d
      = fold (\<lambda>(k, n). dict_set k n) es (dict_set k n d)"
    by (simp add: e)
  then have "map_of (fold (\<lambda>(k, n). dict_set k n) (e # es) d)
      = map_of (dict_set k n d) ++ map_of (rev es)"
    by (simp only: Cons.IH)
  also have "\<dots> = (map_of d)(k \<mapsto> n) ++ map_of (rev es)"
    by (simp only: map_of_dict_set)
  also have "\<dots> = map_of d ++ map_of (rev (e # es))"
    by (simp add: e fun_eq_iff map_add_def split: option.splits)
  finally show ?case .
qed

lemma map_of_last_entry:
  assumes "\<forall>e \<in> set post. fst e \<noteq> k"
  shows "map_of (rev (pre @ (k, n) # post)) k = Some n"
proof -
  have "map_of (rev post) k = None"
    using assms by (auto simp: map_of_eq_None_iff)
  then show ?thesis
    by (simp add: map_add_def)
qed

lemma set_map_filter: "set (List.map_filter f xs) = {y. \<exists>x \<in> set xs. f x = Some y}"
  by (induction xs) (auto simp: map_filter_simps split: option.splits)

lemma map_filter_append:
  "List.map_filter f (xs @ ys) = List.map_filter f xs @ List.map_filter f ys"
  by (simp add: map_filter_def)

text \<open>
  C5.  A line with fewer than 2 fields, or whose field 0 does not parse as an integer,
  leaves the dictionary as it is.  Any other line stores the decoded name under the
  parsed id, the empty string when the name field decodes to null or to the empty
  string.  The loader returns for every sequence of lines, and in its result an id has
  the name of the last line that carries it, and no name when no line carries it.
\<close>

theorem load_editors_spec:
  "(length (fields line) < 2 \<or> (\<exists>e. py_int U 10 (fields line ! 0) = Inl e)
      \<longrightarrow> load_line U d line = Inr d) \<and>
   (2 \<le> length (fields line) \<and> py_int U 10 (fields line ! 0) = Inr eid
      \<longrightarrow> (\<exists>d'. load_line U d line = Inr d' \<and>
                map_of d' = (map_of d)(eid \<mapsto>
                  (case unescape_pg U (fields line ! 1) of None \<Rightarrow> [] | Some n \<Rightarrow> n)))) \<and>
   (\<exists>m. load_editors U ls = Inr m \<and>
        (\<forall>pre l post k n.
           ls = pre @ l # post \<and> editor_entry U l = Some (k, n) \<and>
           (\<forall>l' \<in> set post. \<forall>n'. editor_entry U l' \<noteq> Some (k, n'))
           \<longrightarrow> map_of m k = Some n) \<and>
        (\<forall>k. (\<forall>l \<in> set ls. \<forall>n. editor_entry U l \<noteq> Some (k, n)) \<longrightarrow> map_of m k = None))"
proof (intro conjI impI)
  assume "length (fields line) < 2 \<or> (\<exists>e. py_int U 10 (fields line ! 0) = Inl e)"
  then have "editor_entry U line = None"
    by (auto simp: editor_entry_def)
  then show "load_line U d line = Inr d"
    by (simp add: load_line_entry)
next
  assume "2 \<le> length (fields line) \<and> py_int U 10 (fields line ! 0) = Inr eid"
  then have "editor_entry U line =
      Some (eid, (case unescape_pg U (fields line ! 1) of None \<Rightarrow> [] | Some n \<Rightarrow> n))"
    by (simp add: editor_entry_def)
  then show "\<exists>d'. load_line U d line = Inr d' \<and>
                map_of d' = (map_of d)(eid \<mapsto>
                  (case unescape_pg U (fields line ! 1) of None \<Rightarrow> [] | Some n \<Rightarrow> n))"
    by (simp add: load_line_entry map_of_dict_set)
next
  let ?es = "List.map_filter (editor_entry U) ls"
  let ?m = "fold (\<lambda>(k, n). dict_set k n) ?es []"
  have run: "load_editors U ls = Inr ?m"
    by (simp add: load_editors_def load_lines_fold)
  have look: "map_of ?m = map_of (rev ?es)"
    by (simp add: map_of_fold_dict_set)
  have last: "map_of ?m k = Some n"
    if "ls = pre @ l # post \<and> editor_entry U l = Some (k, n) \<and>
        (\<forall>l' \<in> set post. \<forall>n'. editor_entry U l' \<noteq> Some (k, n'))" for pre l post k n
  proof -
    from that have "?es = List.map_filter (editor_entry U) pre @ (k, n) #
        List.map_filter (editor_entry U) post"
      by (simp add: map_filter_append map_filter_simps)
    moreover from that have "\<forall>e \<in> set (List.map_filter (editor_entry U) post). fst e \<noteq> k"
      by (auto simp: set_map_filter)
    ultimately show ?thesis
      unfolding look by (simp only: map_of_last_entry)
  qed
  have none: "map_of ?m k = None" if "\<forall>l \<in> set ls. \<forall>n. editor_entry U l \<noteq> Some (k, n)" for k
  proof -
    from that have "k \<notin> fst ` set (rev ?es)"
      by (auto simp: set_map_filter)
    then have "map_of (rev ?es) k = None"
      by (simp add: map_of_eq_None_iff)
    then show ?thesis
      by (simp only: look)
  qed
  from run last none
  show "\<exists>m. load_editors U ls = Inr m \<and>
        (\<forall>pre l post k n.
           ls = pre @ l # post \<and> editor_entry U l = Some (k, n) \<and>
           (\<forall>l' \<in> set post. \<forall>n'. editor_entry U l' \<noteq> Some (k, n'))
           \<longrightarrow> map_of m k = Some n) \<and>
        (\<forall>k. (\<forall>l \<in> set ls. \<forall>n. editor_entry U l \<noteq> Some (k, n)) \<longrightarrow> map_of m k = None)"
    by (intro exI [of _ ?m]) blast
qed


theorem load_editors_spec_witness:
  "load_line sample_ucd [(1, ustr ''a'')] (ustr ''x'' @ [9] @ ustr ''b'') = Inr [(1, ustr ''a'')] \<and>
   (\<exists>m. load_editors sample_ucd [ustr ''7'' @ [9] @ ustr ''bob'' @ [10], ustr ''7'' @ [9] @ ustr ''eve'' @ [10]] = Inr m \<and>
        map_of m 7 = Some (ustr ''eve''))"
proof -
  let ?ls = "[ustr ''7'' @ [9] @ ustr ''bob'' @ [10], ustr ''7'' @ [9] @ ustr ''eve'' @ [10]]"
  have bad: "py_int sample_ucd 10 (fields (ustr ''x'' @ [9] @ ustr ''b'') ! 0) = Inl ValueError"
    by code_simp
  have ent: "editor_entry sample_ucd (ustr ''7'' @ [9] @ ustr ''eve'' @ [10]) = Some (7, ustr ''eve'')"
    by code_simp
  have split: "?ls = [ustr ''7'' @ [9] @ ustr ''bob'' @ [10]] @ (ustr ''7'' @ [9] @ ustr ''eve'' @ [10]) # []"
    by simp
  note spec = load_editors_spec [of "ustr ''x'' @ [9] @ ustr ''b''" sample_ucd "[(1, ustr ''a'')]" 0 ?ls]
  from spec bad have a: "load_line sample_ucd [(1, ustr ''a'')] (ustr ''x'' @ [9] @ ustr ''b'') = Inr [(1, ustr ''a'')]"
    by blast
  from spec obtain m where run: "load_editors sample_ucd ?ls = Inr m"
    and last: "\<forall>pre l post k n.
           ?ls = pre @ l # post \<and> editor_entry sample_ucd l = Some (k, n) \<and>
           (\<forall>l' \<in> set post. \<forall>n'. editor_entry sample_ucd l' \<noteq> Some (k, n'))
           \<longrightarrow> map_of m k = Some n"
    by blast
  from last split ent have "map_of m 7 = Some (ustr ''eve'')"
    by (metis empty_iff list.set(1))
  with a run show ?thesis by blast
qed

section \<open>Properties of the decoder\<close>

lemma collect_digits_eq:
  "collect_digits U s i octs n =
     (octs @ takeWhile (py_isdigit U) (take n (drop i s)),
      i + length (takeWhile (py_isdigit U) (take n (drop i s))))"
proof (induction n arbitrary: i octs)
  case 0
  show ?case by simp
next
  case (Suc n)
  show ?case
  proof (cases "i < length s")
    case True
    then have d: "drop i s = s ! i # drop (Suc i) s"
      by (simp add: Cons_nth_drop_Suc)
    show ?thesis
      using True by (simp add: d Suc.IH)
  next
    case False
    then show ?thesis by simp
  qed
qed

lemma collect_digits_run:
  assumes "Suc i < length s" and "py_isdigit U (s ! Suc i)"
  shows "collect_digits U s (Suc (Suc i)) [s ! Suc i] 2 =
           (digit_run U (drop (Suc i) s), Suc i + length (digit_run U (drop (Suc i) s)))"
proof -
  have d: "drop (Suc i) s = s ! Suc i # drop (Suc (Suc i)) s"
    using assms(1) by (simp add: Cons_nth_drop_Suc)
  have t: "take 3 (s ! Suc i # drop (Suc (Suc i)) s) = s ! Suc i # take 2 (drop (Suc (Suc i)) s)"
    by (simp add: numeral_3_eq_3 numeral_2_eq_2)
  show ?thesis
    unfolding collect_digits_eq digit_run_def d t using assms(2) by simp
qed

lemma loop_digit_step:
  assumes "Suc i < length s" and "s ! i = 92"
    and "s ! Suc i \<noteq> 110" and "s ! Suc i \<noteq> 114" and "s ! Suc i \<noteq> 116" and "s ! Suc i \<noteq> 92"
    and "py_isdigit U (s ! Suc i)"
  shows "unescape_loop U s i out =
           unescape_loop U s (Suc i + length (digit_run U (drop (Suc i) s)))
             (out @ [octal_piece U (digit_run U (drop (Suc i) s))])"
proof -
  have "collect_digits U s (Suc (Suc i)) [s ! Suc i] 2 =
           (digit_run U (drop (Suc i) s), Suc i + length (digit_run U (drop (Suc i) s)))"
    using assms(1,7) by (rule collect_digits_run)
  with assms show ?thesis
    by (subst unescape_loop.simps) (simp add: Let_def)
qed

lemma pg_decode_digit:
  assumes "nxt \<noteq> 110" and "nxt \<noteq> 114" and "nxt \<noteq> 116" and "nxt \<noteq> 92"
    and "py_isdigit U nxt"
  shows "pg_decode U (92 # nxt # r) =
           octal_piece U (digit_run U (nxt # r)) @
           pg_decode U (drop (length (digit_run U (nxt # r))) (nxt # r))"
  using assms by (simp add: pg_decode.simps(2) [of U 92])

lemma digit_run_nonempty: "py_isdigit U nxt \<Longrightarrow> digit_run U (nxt # r) \<noteq> []"
  by (simp add: digit_run_def numeral_3_eq_3)

lemma unescape_loop_decode:
  "concat (unescape_loop U s i out) = concat out @ pg_decode U (drop i s)"
proof (induction "length s - i" arbitrary: i out rule: less_induct)
  case less
  show ?case
  proof (cases "i < length s")
    case False
    then show ?thesis
      by (simp add: unescape_loop.simps [of U s i] pg_decode.simps)
  next
    case lt: True
    then have d: "drop i s = s ! i # drop (Suc i) s"
      by (simp add: Cons_nth_drop_Suc)
    show ?thesis
    proof (cases "s ! i \<noteq> 92")
      case True
      have "concat (unescape_loop U s (i + 1) (out @ [[s ! i]]))
          = concat (out @ [[s ! i]]) @ pg_decode U (drop (i + 1) s)"
        using lt by (intro less) simp
      with lt True show ?thesis
        by (simp add: unescape_loop.simps [of U s i] d pg_decode.simps(2) [of U "s ! i"])
    next
      case bs: False
      show ?thesis
      proof (cases "length s \<le> i + 1")
        case True
        with lt bs show ?thesis
          by (simp add: unescape_loop.simps [of U s i] d pg_decode.simps(2) [of U 92])
      next
        case more: False
        then have d1: "drop (Suc i) s = s ! Suc i # drop (Suc (Suc i)) s"
          by (simp add: Cons_nth_drop_Suc)
        have "concat (unescape_loop U s (Suc (Suc i)) (out @ [p]))
            = concat (out @ [p]) @ pg_decode U (drop (Suc (Suc i)) s)" for p
          using lt by (intro less) simp
        then have two: "concat (unescape_loop U s (Suc (Suc i)) (out @ [p]))
            = concat out @ p @ pg_decode U (drop (Suc (Suc i)) s)" for p
          by simp
        show ?thesis
        proof (cases "s ! Suc i = 110 \<or> s ! Suc i = 114 \<or> s ! Suc i = 116 \<or> s ! Suc i = 92
                      \<or> \<not> py_isdigit U (s ! Suc i)")
          case True
          with lt bs more show ?thesis
            by (auto simp add: unescape_loop.simps [of U s i] d d1 two Let_def
                pg_decode.simps(2) [of U 92])
        next
          case dig: False
          let ?run = "digit_run U (drop (Suc i) s)"
          have step: "unescape_loop U s i out =
              unescape_loop U s (Suc i + length ?run) (out @ [octal_piece U ?run])"
            using more bs dig by (intro loop_digit_step) simp_all
          have "?run \<noteq> []"
            unfolding d1 using dig by (intro digit_run_nonempty) simp
          then have "length s - (Suc i + length ?run) < length s - i"
            using lt by (cases ?run) simp_all
          then have "concat (unescape_loop U s (Suc i + length ?run) (out @ [octal_piece U ?run]))
              = concat (out @ [octal_piece U ?run]) @ pg_decode U (drop (Suc i + length ?run) s)"
            by (rule less)
          also have "drop (Suc i + length ?run) s = drop (length ?run) (drop (Suc i) s)"
            by (simp add: add.commute)
          also have "concat (out @ [octal_piece U ?run]) @ pg_decode U (drop (length ?run) (drop (Suc i) s))
              = concat out @ pg_decode U (92 # drop (Suc i) s)"
            unfolding d1 using dig by (simp add: pg_decode_digit)
          finally show ?thesis
            using bs by (simp add: step d)
        qed
      qed
    qed
  qed
qed

lemma decode_eq: "decode U s = pg_decode U s"
  by (simp add: decode_def unescape_loop_decode)


lemma isdigit_ascii: "py_isdigit U c \<Longrightarrow> c < 128 \<Longrightarrow> 48 \<le> c \<and> c \<le> 57"
  by (auto simp: py_isdigit_def uclass_of_def latin1_class_def split: if_splits)

lemma isdigit_not_space: "py_isdigit U c \<Longrightarrow> \<not> py_unicode_isspace U c"
  by (auto simp: py_isdigit_def py_unicode_isspace_def)

lemma octal_digit_not_space: "octal_digit U c \<Longrightarrow> \<not> py_unicode_isspace U c"
  by (auto simp: octal_digit_def py_todecimal_def py_unicode_isspace_def split: uclass.splits)

lemma todecimal_ascii:
  "c < 128 \<Longrightarrow> py_todecimal U c = (if 48 \<le> c \<and> c \<le> 57 then Some (c - 48) else None)"
  by (auto simp: py_todecimal_def uclass_of_def latin1_class_def)

lemma to_ascii_digits:
  "list_all (py_isdigit U) run \<Longrightarrow> to_ascii U run = to_ascii_loop U run"
proof -
  assume dig: "list_all (py_isdigit U) run"
  have "list_all (\<lambda>c. c < 128) r \<Longrightarrow> list_all (py_isdigit U) r \<Longrightarrow> to_ascii_loop U r = r" for r
  proof (induction r)
    case Nil
    show ?case by simp
  next
    case (Cons c r)
    then have "48 \<le> c \<and> c \<le> 57"
      using isdigit_ascii [of U c] by simp
    with Cons show ?case by simp
  qed
  with dig show ?thesis
    by (simp add: to_ascii_def)
qed

lemma to_ascii_loop_chars:
  assumes "ucd_ok U"
  shows "list_all (py_isdigit U) run \<Longrightarrow> x \<in> set (to_ascii_loop U run)
           \<Longrightarrow> (48 \<le> x \<and> x \<le> 57) \<or> x = 63"
proof (induction run)
  case Nil
  then show ?case by simp
next
  case (Cons c run)
  have dec: "d \<le> 9" if "py_todecimal U c = Some d" for d
  proof (cases "c < 256")
    case True
    with that show ?thesis
      by (auto simp: py_todecimal_def uclass_of_def latin1_class_def split: if_splits)
  next
    case False
    with that assms show ?thesis
      by (auto simp: py_todecimal_def uclass_of_def ucd_ok_def split: uclass.splits)
  qed
  show ?case
  proof (cases "c < 127")
    case True
    with Cons.prems have "48 \<le> c \<and> c \<le> 57"
      using isdigit_ascii [of U c] by simp
    with True Cons show ?thesis by auto
  next
    case False
    with Cons.prems have ns: "\<not> py_unicode_isspace U c"
      by (simp add: isdigit_not_space)
    show ?thesis
    proof (cases "py_todecimal U c")
      case None
      with False ns Cons.prems show ?thesis by simp
    next
      case (Some d)
      with dec have "d \<le> 9" by simp
      with False ns Some Cons show ?thesis by auto
    qed
  qed
qed

lemma to_ascii_loop_octal:
  "list_all (octal_digit U) run \<Longrightarrow>
     to_ascii_loop U run = map (\<lambda>c. 48 + the (py_todecimal U c)) run"
proof (induction run)
  case Nil
  show ?case by simp
next
  case (Cons c run)
  then have od: "octal_digit U c" by simp
  then obtain d where d: "py_todecimal U c = Some d"
    by (auto simp: octal_digit_def split: option.splits)
  have "c < 127 \<Longrightarrow> 48 + d = c"
    using d by (auto simp: todecimal_ascii split: if_splits)
  with Cons od d show ?case
    by (simp add: octal_digit_not_space)
qed

lemma to_ascii_loop_not_octal:
  "list_all (py_isdigit U) run \<Longrightarrow> \<not> list_all (octal_digit U) run
     \<Longrightarrow> \<not> list_all (\<lambda>x. digit_value x < 8) (to_ascii_loop U run)"
proof (induction run)
  case Nil
  then show ?case by simp
next
  case (Cons c run)
  show ?case
  proof (cases "c < 127")
    case True
    with Cons.prems have r: "48 \<le> c \<and> c \<le> 57"
      using isdigit_ascii [of U c] by simp
    with True have "octal_digit U c \<longleftrightarrow> digit_value c < 8"
      by (auto simp: octal_digit_def todecimal_ascii digit_value_def)
    with True Cons show ?thesis by auto
  next
    case False
    with Cons.prems have ns: "\<not> py_unicode_isspace U c"
      by (simp add: isdigit_not_space)
    show ?thesis
    proof (cases "py_todecimal U c")
      case None
      with False ns show ?thesis by (simp add: digit_value_def)
    next
      case (Some d)
      have "digit_value (48 + d) < 8 \<longleftrightarrow> d < 8"
        by (auto simp: digit_value_def)
      with Some have "octal_digit U c \<longleftrightarrow> digit_value (48 + d) < 8"
        by (simp add: octal_digit_def)
      with False ns Some Cons show ?thesis by auto
    qed
  qed
qed

lemma to_ascii_loop_nonempty: "run \<noteq> [] \<Longrightarrow> to_ascii_loop U run \<noteq> []"
  by (cases run) (auto split: option.splits)

lemma scan_digits_plain:
  "95 \<notin> set a \<Longrightarrow> prev \<noteq> 95 \<Longrightarrow>
     scan_digits b prev a acc =
       Inr (acc @ map digit_value (takeWhile (\<lambda>c. digit_value c < b) a),
            dropWhile (\<lambda>c. digit_value c < b) a)"
  by (induction a arbitrary: prev acc) auto


lemma py_int_digit_text:
  assumes a: "to_ascii U s = a" and ne: "a \<noteq> []"
    and D: "\<forall>x \<in> set a. (48 \<le> x \<and> x \<le> 57) \<or> x = 63"
  shows "py_int U 8 s =
     (if list_all (\<lambda>x. digit_value x < 8) a
      then Inr (int (foldl (\<lambda>v d. v * 8 + d) 0 (map digit_value a)))
      else Inl ValueError)"
proof -
  obtain z r where zr: "a = z # r"
    using ne by (cases a) auto
  have nsp: "\<not> ascii_isspace x" if "x \<in> set a" for x
    using D that by (auto simp: ascii_isspace_def)
  have z: "(48 \<le> z \<and> z \<le> 57) \<or> z = 63"
    using D zr by simp
  have sp: "dropWhile ascii_isspace a = a"
    using nsp zr by simp
  have sg: "skip_sign a = (1, a)"
    using z by (auto simp: skip_sign_def zr)
  have px: "skip_prefix 8 a = a"
  proof (cases r)
    case Nil
    then show ?thesis by (simp add: skip_prefix_def zr)
  next
    case (Cons x r')
    with D zr have "(48 \<le> x \<and> x \<le> 57) \<or> x = 63" by simp
    then show ?thesis
      by (auto simp: skip_prefix_def zr Cons)
  qed
  have us: "95 \<notin> set a"
    using D by auto
  have sc: "scan_digits 8 0 a [] =
      Inr (map digit_value (takeWhile (\<lambda>c. digit_value c < 8) a),
           dropWhile (\<lambda>c. digit_value c < 8) a)"
    using scan_digits_plain [OF us, of 0 8 "[]"] by simp
  have rest: "dropWhile ascii_isspace (dropWhile (\<lambda>c. digit_value c < 8) a) =
      dropWhile (\<lambda>c. digit_value c < 8) a"
  proof (cases "dropWhile (\<lambda>c. digit_value c < 8) a")
    case Nil
    show ?thesis unfolding Nil by simp
  next
    case (Cons y ys)
    then have "y \<in> set a"
      by (metis list.set_intros(1) set_dropWhileD)
    then have "\<not> ascii_isspace y" by (rule nsp)
    with Cons show ?thesis by simp
  qed
  have hd95: "\<not> (a \<noteq> [] \<and> hd a = 95)"
    using z zr by auto
  have P: "py_int U 8 s =
     (if takeWhile (\<lambda>c. digit_value c < 8) a = [] then Inl ValueError
      else if dropWhile (\<lambda>c. digit_value c < 8) a \<noteq> [] then Inl ValueError
      else Inr (int (foldl (\<lambda>v d. v * 8 + d) 0
                       (map digit_value (takeWhile (\<lambda>c. digit_value c < 8) a)))))"
    unfolding py_int_def a sp sg prod.case Let_def px sc sum.case rest
    using hd95 by auto
  show ?thesis
  proof (cases "list_all (\<lambda>x. digit_value x < 8) a")
    case True
    then have t: "takeWhile (\<lambda>c. digit_value c < 8) a = a"
      and d: "dropWhile (\<lambda>c. digit_value c < 8) a = []"
      by (simp_all add: list_all_iff)
    show ?thesis
      unfolding P t d using True ne by simp
  next
    case False
    then have nr: "dropWhile (\<lambda>c. digit_value c < 8) a \<noteq> []"
      by (simp add: list_all_iff)
    show ?thesis
      unfolding P using False nr by simp
  qed
qed

lemma octal_foldl:
  "list_all (octal_digit U) run \<Longrightarrow>
     foldl (\<lambda>v d. v * 8 + d) acc (map digit_value (map (\<lambda>c. 48 + the (py_todecimal U c)) run))
       = foldl (\<lambda>a c. 8 * a + the (py_todecimal U c)) acc run"
proof (induction run arbitrary: acc)
  case Nil
  show ?case by simp
next
  case (Cons c run)
  then obtain d where d: "py_todecimal U c = Some d" and "d < 8"
    by (auto simp: octal_digit_def split: option.splits)
  then have "digit_value (48 + d) = d"
    by (simp add: digit_value_def)
  with Cons d show ?case
    by (simp add: mult.commute)
qed

lemma octal_bound:
  "list_all (octal_digit U) run \<Longrightarrow>
     foldl (\<lambda>a c. 8 * a + the (py_todecimal U c)) acc run < 8 ^ length run * (acc + 1)"
proof (induction run arbitrary: acc)
  case Nil
  show ?case by simp
next
  case (Cons c run)
  then obtain d where d: "py_todecimal U c = Some d" and d8: "d < 8"
    by (auto simp: octal_digit_def split: option.splits)
  have "foldl (\<lambda>a c. 8 * a + the (py_todecimal U c)) (8 * acc + d) run
      < 8 ^ length run * (8 * acc + d + 1)"
    using Cons by simp
  also have "\<dots> \<le> 8 ^ length run * (8 * (acc + 1))"
    using d8 by (intro mult_le_mono2) simp
  also have "\<dots> = 8 ^ length (c # run) * (acc + 1)"
    by (simp add: algebra_simps)
  finally have "foldl (\<lambda>a c. 8 * a + the (py_todecimal U c)) (8 * acc + d) run
      < 8 ^ length (c # run) * (acc + 1)" .
  then show ?case
    by (simp only: foldl_Cons d option.sel)
qed

lemma py_chr_small: "v < 512 \<Longrightarrow> py_chr (int v) = Inr v"
  by (simp add: py_chr_def)

lemma octal_piece_eq:
  assumes ok: "ucd_ok U" and ne: "run \<noteq> []" and len: "length run \<le> 3"
    and dig: "list_all (py_isdigit U) run"
  shows "octal_piece U run = (case octal_value U run of None \<Rightarrow> 92 # run | Some v \<Rightarrow> [v])"
proof -
  let ?a = "to_ascii_loop U run"
  have a: "to_ascii U run = ?a"
    using dig by (rule to_ascii_digits)
  have D: "\<forall>x \<in> set ?a. (48 \<le> x \<and> x \<le> 57) \<or> x = 63"
    using to_ascii_loop_chars [OF ok dig] by blast
  have ane: "?a \<noteq> []"
    using ne by (rule to_ascii_loop_nonempty)
  note int = py_int_digit_text [OF a ane D]
  show ?thesis
  proof (cases "list_all (octal_digit U) run")
    case True
    then have img: "?a = map (\<lambda>c. 48 + the (py_todecimal U c)) run"
      by (rule to_ascii_loop_octal)
    have all: "list_all (\<lambda>x. digit_value x < 8) ?a"
      unfolding img using True
      by (auto simp: list_all_iff octal_digit_def digit_value_def split: option.splits)
    let ?v = "foldl (\<lambda>a c. 8 * a + the (py_todecimal U c)) 0 run"
    have val: "py_int U 8 run = Inr (int ?v)"
      using int all octal_foldl [OF True, of 0] by (simp add: img)
    have "?v < 8 ^ length run * 1"
      using octal_bound [OF True, of 0] by simp
    also have "\<dots> \<le> 8 ^ 3 * 1"
      using len by (intro mult_le_mono1 power_increasing) simp_all
    finally have "?v < 512" by simp
    then have "py_chr (int ?v) = Inr ?v"
      by (rule py_chr_small)
    with True val show ?thesis
      by (simp add: octal_piece_def octal_value_def)
  next
    case False
    with dig have "\<not> list_all (\<lambda>x. digit_value x < 8) ?a"
      by (rule to_ascii_loop_not_octal)
    with int have "py_int U 8 run = Inl ValueError"
      by simp
    with False show ?thesis
      by (simp add: octal_piece_def octal_value_def)
  qed
qed

lemma digit_run_props:
  "length (digit_run U t) \<le> 3 \<and> list_all (py_isdigit U) (digit_run U t)"
proof -
  have "length (takeWhile (py_isdigit U) (take 3 t)) \<le> length (take 3 t)"
    by (rule length_takeWhile_le)
  moreover have "\<forall>x \<in> set (takeWhile (py_isdigit U) (take 3 t)). py_isdigit U x"
    by (auto dest: set_takeWhileD)
  ultimately show ?thesis
    by (simp add: digit_run_def list_all_iff)
qed


lemma pg_decode_plain: "92 \<notin> set s \<Longrightarrow> pg_decode U s = s"
  by (induction s) (simp_all add: pg_decode.simps)

lemma isdigit_not_escape_letter:
  "py_isdigit U c \<Longrightarrow> c \<noteq> 110 \<and> c \<noteq> 114 \<and> c \<noteq> 116 \<and> c \<noteq> 92"
  using isdigit_ascii [of U c] by auto

lemma octal_piece_nondecimal:
  assumes dig: "py_isdigit U c" and nd: "\<not> py_isdecimal U c"
  shows "octal_piece U (c # r) = 92 # c # r"
proof -
  have big: "\<not> c < 128"
  proof
    assume "c < 128"
    with dig have "48 \<le> c \<and> c \<le> 57"
      by (rule isdigit_ascii)
    with \<open>c < 128\<close> have "py_isdecimal U c"
      by (simp add: py_isdecimal_def uclass_of_def latin1_class_def)
    with nd show False by simp
  qed
  have none: "py_todecimal U c = None"
    using nd by (simp add: py_isdecimal_def py_todecimal_def split: uclass.splits)
  have "to_ascii_loop U (c # r) = [63]"
    using big none isdigit_not_space [OF dig] by simp
  with big have a: "to_ascii U (c # r) = [63]"
    by (simp add: to_ascii_def)
  have "py_int U 8 (c # r) = Inl ValueError"
    using py_int_digit_text [OF a] by (simp add: digit_value_def)
  then show ?thesis
    by (simp add: octal_piece_def)
qed

lemma decode_nondecimal_digit:
  assumes dig: "py_isdigit U c" and nd: "\<not> py_isdecimal U c"
  shows "decode U (92 # c # t) =
           92 # digit_run U (c # t) @ decode U (drop (length (digit_run U (c # t))) (c # t))"
proof -
  let ?run = "digit_run U (c # t)"
  have "?run = c # takeWhile (py_isdigit U) (take 2 t)"
    using dig by (simp add: digit_run_def numeral_3_eq_3 numeral_2_eq_2)
  then have piece: "octal_piece U ?run = 92 # ?run"
    using octal_piece_nondecimal [OF dig nd] by simp
  have "pg_decode U (92 # c # t) = octal_piece U ?run @ pg_decode U (drop (length ?run) (c # t))"
    using dig isdigit_not_escape_letter [OF dig] by (intro pg_decode_digit) simp_all
  then show ?thesis
    by (simp only: decode_eq piece append_Cons)
qed

text \<open>
  C4, as the code has it.  \<open>unescape_pg\<close> returns the null marker exactly on the two
  characters backslash-N.  On every other input it returns what the loop builds
  (\<open>decode\<close>), and a string without a backslash is returned unchanged.  The loop's
  result is built left to right: a character other than a backslash is copied; a lone
  backslash at the end is kept; backslash-n, -r, -t and backslash-backslash give
  newline, carriage return, tab and one backslash; a backslash followed by any other
  character for which \<open>str.isdigit\<close> does not hold gives that character.  A backslash
  followed by a character for which \<open>str.isdigit\<close> holds and which is not a decimal
  digit (superscript two) is kept, together with the digit run that the character
  starts.
\<close>

theorem unescape_pg_rules:
  "(unescape_pg U s = None \<longleftrightarrow> s = [92, 78]) \<and>
   (s \<noteq> [92, 78] \<longrightarrow> unescape_pg U s = Some (decode U s)) \<and>
   (92 \<notin> set s \<longrightarrow> unescape_pg U s = Some s) \<and>
   decode U [] = [] \<and>
   (c \<noteq> 92 \<longrightarrow> decode U (c # t) = c # decode U t) \<and>
   decode U [92] = [92] \<and>
   decode U (92 # 110 # t) = 10 # decode U t \<and>
   decode U (92 # 114 # t) = 13 # decode U t \<and>
   decode U (92 # 116 # t) = 9 # decode U t \<and>
   decode U (92 # 92 # t) = 92 # decode U t \<and>
   (c \<noteq> 110 \<and> c \<noteq> 114 \<and> c \<noteq> 116 \<and> c \<noteq> 92 \<and> \<not> py_isdigit U c
      \<longrightarrow> decode U (92 # c # t) = c # decode U t) \<and>
   (py_isdigit U c \<and> \<not> py_isdecimal U c
      \<longrightarrow> decode U (92 # c # t) =
            92 # digit_run U (c # t) @
            decode U (drop (length (digit_run U (c # t))) (c # t)))"
proof -
  have null: "unescape_pg U s = None \<longleftrightarrow> s = [92, 78]"
    by (simp add: unescape_pg_def)
  have slow: "unescape_pg U s = Some (decode U s)" if "s \<noteq> [92, 78]"
    using that by (simp add: unescape_pg_def decode_eq pg_decode_plain)
       (simp add: decode_eq [symmetric] decode_def)
  have fast: "unescape_pg U s = Some s" if "92 \<notin> set s"
    using that by (auto simp: unescape_pg_def)
  have e0: "decode U [] = []"
    by (simp add: decode_eq pg_decode.simps)
  have e1: "decode U (c # t) = c # decode U t" if "c \<noteq> 92"
    using that by (simp add: decode_eq pg_decode.simps)
  have e2: "decode U [92] = [92]"
    by (simp add: decode_eq pg_decode.simps)
  have e3: "decode U (92 # 110 # t) = 10 # decode U t"
    by (simp add: decode_eq pg_decode.simps)
  have e4: "decode U (92 # 114 # t) = 13 # decode U t"
    by (simp add: decode_eq pg_decode.simps)
  have e5: "decode U (92 # 116 # t) = 9 # decode U t"
    by (simp add: decode_eq pg_decode.simps)
  have e6: "decode U (92 # 92 # t) = 92 # decode U t"
    by (simp add: decode_eq pg_decode.simps)
  have e7: "decode U (92 # c # t) = c # decode U t"
    if "c \<noteq> 110 \<and> c \<noteq> 114 \<and> c \<noteq> 116 \<and> c \<noteq> 92 \<and> \<not> py_isdigit U c"
    using that by (simp add: decode_eq pg_decode.simps)
  have e8: "decode U (92 # c # t) =
            92 # digit_run U (c # t) @
            decode U (drop (length (digit_run U (c # t))) (c # t))"
    if "py_isdigit U c \<and> \<not> py_isdecimal U c"
    using that by (intro decode_nondecimal_digit) simp_all
  from null slow fast e0 e1 e2 e3 e4 e5 e6 e7 e8 show ?thesis
    by blast
qed

theorem unescape_pg_rules_witness:
  "unescape_pg sample_ucd (ustr ''ab'') = Some (ustr ''ab'') \<and>
   unescape_pg sample_ucd [97, 92, 78] = Some (decode sample_ucd [97, 92, 78]) \<and>
   decode sample_ucd [97, 92, 78] = 97 # decode sample_ucd [92, 78] \<and>
   decode sample_ucd [92, 78] = 78 # decode sample_ucd [] \<and>
   decode sample_ucd [92, 178] = 92 # [178] @ decode sample_ucd []"
proof -
  have a: "92 \<notin> set (ustr ''ab'')" by (simp add: ustr_def)
  have b: "[97, 92, 78] \<noteq> [92, 78 :: nat]" by simp
  have c: "(97 :: nat) \<noteq> 92" by simp
  have d: "(78 :: nat) \<noteq> 110 \<and> (78 :: nat) \<noteq> 114 \<and> (78 :: nat) \<noteq> 116 \<and> (78 :: nat) \<noteq> 92 \<and>
           \<not> py_isdigit sample_ucd 78"
    by (simp add: py_isdigit_def uclass_of_def latin1_class_def)
  have e: "py_isdigit sample_ucd 178 \<and> \<not> py_isdecimal sample_ucd 178"
    by code_simp
  have r: "digit_run sample_ucd (178 # []) = [178]"
    by code_simp
  from a unescape_pg_rules [of sample_ucd "ustr ''ab''"]
  have 1: "unescape_pg sample_ucd (ustr ''ab'') = Some (ustr ''ab'')" by blast
  from b c unescape_pg_rules [of sample_ucd "[97, 92, 78]" 97 "[92, 78]"]
  have 2: "unescape_pg sample_ucd [97, 92, 78] = Some (decode sample_ucd [97, 92, 78])"
    and 3: "decode sample_ucd [97, 92, 78] = 97 # decode sample_ucd [92, 78]" by blast+
  from d unescape_pg_rules [of sample_ucd "[]" 78 "[]"]
  have 4: "decode sample_ucd [92, 78] = 78 # decode sample_ucd []" by blast
  from e unescape_pg_rules [of sample_ucd "[]" 178 "[]"]
  have "decode sample_ucd (92 # 178 # []) =
            92 # digit_run sample_ucd (178 # []) @
            decode sample_ucd (drop (length (digit_run sample_ucd (178 # []))) (178 # []))"
    by blast
  then have 5: "decode sample_ucd [92, 178] = 92 # [178] @ decode sample_ucd []"
    unfolding r by simp
  from 1 2 3 4 5 show ?thesis by blast
qed

text \<open>
  C4 as stated fails on backslash, superscript two.  Superscript two is not a decimal
  digit, so the claim has the decoder drop the backslash and return superscript two
  alone.  It is a digit for \<open>str.isdigit\<close>, so the decoder takes it as a digit run, fails
  to read it in base 8, and returns the input with its backslash.
\<close>

theorem unescape_pg_superscript_keeps_backslash:
  "\<not> py_isdecimal sample_ucd 178 \<and>
   unescape_pg sample_ucd [92, 178] = Some [92, 178] \<and>
   unescape_pg sample_ucd [92, 178] \<noteq> Some [178]"
  by code_simp

lemma digit_run_head:
  assumes "digit_run U (drop (Suc i) s) \<noteq> []"
  shows "Suc i < length s \<and> py_isdigit U (s ! Suc i)"
proof -
  from assms have ne: "drop (Suc i) s \<noteq> []"
    by (auto simp: digit_run_def)
  then have lt: "Suc i < length s" by simp
  then have d: "drop (Suc i) s = s ! Suc i # drop (Suc (Suc i)) s"
    by (simp add: Cons_nth_drop_Suc)
  from assms have "py_isdigit U (s ! Suc i)"
    unfolding d digit_run_def by (auto simp: numeral_3_eq_3 split: if_splits)
  with lt show ?thesis by simp
qed

text \<open>
  C3, as the code has it.  When the loop is at a backslash that is followed by a digit
  run (1 to 3 characters for which \<open>str.isdigit\<close> holds), it appends one piece and goes
  on after the run: the single character whose code point is the run read in base 8
  when every character of the run is a decimal digit of value 0 to 7, and otherwise the
  backslash followed by the run unchanged.  The same in terms of the result, and the
  example: backslash,1,0,1 decodes to \<open>A\<close>.
\<close>

theorem octal_escape:
  "(ucd_ok U \<and> i < length s \<and> s ! i = 92 \<and> digit_run U (drop (Suc i) s) \<noteq> [] \<longrightarrow>
      unescape_loop U s i out =
        unescape_loop U s (Suc i + length (digit_run U (drop (Suc i) s)))
          (out @ [case octal_value U (digit_run U (drop (Suc i) s)) of
                    None \<Rightarrow> 92 # digit_run U (drop (Suc i) s)
                  | Some v \<Rightarrow> [v]])) \<and>
   (ucd_ok U \<and> py_isdigit U c \<longrightarrow>
      decode U (92 # c # t) =
        (case octal_value U (digit_run U (c # t)) of
           None \<Rightarrow> 92 # digit_run U (c # t)
         | Some v \<Rightarrow> [v]) @ decode U (drop (length (digit_run U (c # t))) (c # t))) \<and>
   unescape_pg U [92, 49, 48, 49] = Some [65]"
proof (intro conjI impI)
  assume h: "ucd_ok U \<and> i < length s \<and> s ! i = 92 \<and> digit_run U (drop (Suc i) s) \<noteq> []"
  let ?run = "digit_run U (drop (Suc i) s)"
  from h digit_run_head have lt: "Suc i < length s" and dig: "py_isdigit U (s ! Suc i)"
    by blast+
  have piece: "octal_piece U ?run = (case octal_value U ?run of None \<Rightarrow> 92 # ?run | Some v \<Rightarrow> [v])"
    using h digit_run_props [of U "drop (Suc i) s"] by (intro octal_piece_eq) simp_all
  have "unescape_loop U s i out =
      unescape_loop U s (Suc i + length ?run) (out @ [octal_piece U ?run])"
    using lt h dig isdigit_not_escape_letter [OF dig] by (intro loop_digit_step) simp_all
  then show "unescape_loop U s i out =
        unescape_loop U s (Suc i + length ?run)
          (out @ [case octal_value U ?run of None \<Rightarrow> 92 # ?run | Some v \<Rightarrow> [v]])"
    by (simp only: piece)
next
  assume h: "ucd_ok U \<and> py_isdigit U c"
  let ?run = "digit_run U (c # t)"
  have ne: "?run \<noteq> []"
    using h by (simp add: digit_run_nonempty)
  have piece: "octal_piece U ?run = (case octal_value U ?run of None \<Rightarrow> 92 # ?run | Some v \<Rightarrow> [v])"
    using h ne digit_run_props [of U "c # t"] by (intro octal_piece_eq) simp_all
  have "pg_decode U (92 # c # t) = octal_piece U ?run @ pg_decode U (drop (length ?run) (c # t))"
    using h isdigit_not_escape_letter [of U c] by (intro pg_decode_digit) simp_all
  then show "decode U (92 # c # t) =
        (case octal_value U ?run of None \<Rightarrow> 92 # ?run | Some v \<Rightarrow> [v]) @
        decode U (drop (length ?run) (c # t))"
    by (simp only: decode_eq piece)
next
  show "unescape_pg U [92, 49, 48, 49] = Some [65]"
    by code_simp
qed

lemma ucd_ok_sample: "ucd_ok sample_ucd"
  by (auto simp: ucd_ok_def sample_ucd_def split: if_splits)

theorem octal_escape_witness:
  "unescape_loop sample_ucd [92, 49, 48, 49] 0 [] =
     unescape_loop sample_ucd [92, 49, 48, 49] 4 [[65]] \<and>
   decode sample_ucd [92, 56, 49] = [92, 56, 49] @ decode sample_ucd [] \<and>
   decode sample_ucd [92, 1635, 178] = [92, 1635, 178] @ decode sample_ucd []"
proof -
  have r1: "digit_run sample_ucd (drop (Suc 0) [92, 49, 48, 49]) = [49, 48, 49]"
    by code_simp
  have v1: "octal_value sample_ucd [49, 48, 49] = Some 65"
    by code_simp
  have n1: "digit_run sample_ucd (drop (Suc 0) [92, 49, 48, 49]) \<noteq> []"
    unfolding r1 by simp
  have i1: "0 < length [92, 49, 48, 49 :: nat] \<and> [92, 49, 48, 49 :: nat] ! 0 = 92"
    by simp
  have d2: "py_isdigit sample_ucd 56" by code_simp
  have r2: "digit_run sample_ucd [56, 49] = [56, 49]" by code_simp
  have v2: "octal_value sample_ucd [56, 49] = None" by code_simp
  have d3: "py_isdigit sample_ucd 1635" by code_simp
  have r3: "digit_run sample_ucd [1635, 178] = [1635, 178]" by code_simp
  have v3: "octal_value sample_ucd [1635, 178] = None" by code_simp
  from octal_escape [of sample_ucd 0 "[92, 49, 48, 49]" "[]"] ucd_ok_sample n1 i1
  have "unescape_loop sample_ucd [92, 49, 48, 49] 0 [] =
        unescape_loop sample_ucd [92, 49, 48, 49]
          (Suc 0 + length (digit_run sample_ucd (drop (Suc 0) [92, 49, 48, 49])))
          ([] @ [case octal_value sample_ucd (digit_run sample_ucd (drop (Suc 0) [92, 49, 48, 49])) of
                    None \<Rightarrow> 92 # digit_run sample_ucd (drop (Suc 0) [92, 49, 48, 49])
                  | Some v \<Rightarrow> [v]])"
    by blast
  then have 1: "unescape_loop sample_ucd [92, 49, 48, 49] 0 [] =
      unescape_loop sample_ucd [92, 49, 48, 49] 4 [[65]]"
    unfolding r1 v1 by (simp add: eval_nat_numeral)
  from octal_escape [of sample_ucd _ _ _ 56 "[49]"] ucd_ok_sample d2
  have "decode sample_ucd (92 # 56 # [49]) =
        (case octal_value sample_ucd (digit_run sample_ucd (56 # [49])) of
           None \<Rightarrow> 92 # digit_run sample_ucd (56 # [49])
         | Some v \<Rightarrow> [v]) @
        decode sample_ucd (drop (length (digit_run sample_ucd (56 # [49]))) (56 # [49]))"
    by blast
  then have 2: "decode sample_ucd [92, 56, 49] = [92, 56, 49] @ decode sample_ucd []"
    unfolding r2 v2 by simp
  from octal_escape [of sample_ucd _ _ _ 1635 "[178]"] ucd_ok_sample d3
  have "decode sample_ucd (92 # 1635 # [178]) =
        (case octal_value sample_ucd (digit_run sample_ucd (1635 # [178])) of
           None \<Rightarrow> 92 # digit_run sample_ucd (1635 # [178])
         | Some v \<Rightarrow> [v]) @
        decode sample_ucd (drop (length (digit_run sample_ucd (1635 # [178]))) (1635 # [178]))"
    by blast
  then have 3: "decode sample_ucd [92, 1635, 178] = [92, 1635, 178] @ decode sample_ucd []"
    unfolding r3 v3 by simp
  from 1 2 3 show ?thesis by blast
qed

text \<open>
  C3 as stated fails on backslash, 1, superscript two.  The backslash is followed by
  one decimal digit (superscript two is a digit for \<open>str.isdigit\<close> but not a decimal
  digit), and \<open>1\<close> is a valid octal numeral, so the claim has the decoder emit the
  character with code point 1 and then copy superscript two.  The decoder takes both
  characters as the run, fails to read it in base 8, and returns the input unchanged.
\<close>

theorem octal_escape_superscript:
  "py_isdecimal sample_ucd 49 \<and> \<not> py_isdecimal sample_ucd 178 \<and>
   octal_value sample_ucd [49] = Some 1 \<and>
   unescape_pg sample_ucd [92, 49, 178] = Some [92, 49, 178] \<and>
   unescape_pg sample_ucd [92, 49, 178] \<noteq> Some [1, 178]"
  by code_simp

section \<open>Properties of the pipeline\<close>

lemma sort_reverse_unique:
  assumes m: "mset ys = mset xs"
    and s: "sorted_wrt (\<lambda>a b. f b \<le> f a) ys"
    and t: "\<And>k. filter (\<lambda>r. f r = k) ys = filter (\<lambda>r. f r = k) xs"
  shows "ys = sort_reverse f xs"
proof -
  have key: "sort_key (\<lambda>r. - f r) xs = zs"
    if "mset zs = mset xs" and "sorted_wrt (\<lambda>a b. f b \<le> f a) zs"
      and "\<And>k. filter (\<lambda>r. f r = k) zs = filter (\<lambda>r. f r = k) xs" for zs
  proof (rule properties_for_sort_key)
    show "mset zs = mset xs" by fact
  next
    fix k
    have "filter (\<lambda>x. - f k = - f x) zs = filter (\<lambda>r. f r = f k) zs"
      by (rule filter_cong) auto
    also have "\<dots> = filter (\<lambda>r. f r = f k) xs" by (rule that(3))
    also have "\<dots> = filter (\<lambda>x. - f k = - f x) xs"
      by (rule filter_cong) auto
    finally show "filter (\<lambda>x. - f k = - f x) zs = filter (\<lambda>x. - f k = - f x) xs" .
  next
    from that(2) show "sorted (map (\<lambda>r. - f r) zs)"
      by (simp add: sorted_map)
  qed
  have "sort_key (\<lambda>r. - f r) xs = ys"
    using m s t by (rule key)
  moreover have "sort_key (\<lambda>r. - f r) xs = sort_reverse f xs"
    by (rule key) (rule mset_sort_reverse sorted_sort_reverse sort_reverse_stable)+
  ultimately show ?thesis by simp
qed

lemma load_editors_total: "\<exists>editors. load_editors U editor_lines = Inr editors"
  by (simp add: load_editors_def load_lines_fold)

lemma make_rows_spec:
  "make_rows editors (map (\<lambda>k. (k, int (count_list (applied_ids U ls) k))) ks)
     = map (spec_row U editors ls) ks"
  by (simp add: make_rows_def spec_row_def applied_count_def count_applied_ids)

text \<open>
  C8.  The pipeline is a function of the two line sequences, and it returns for every
  input: the loader yields a name dictionary and \<open>main\<close> yields a CSV text.  That text is
  fixed by the inputs and the ranking rule alone: take any list \<open>ys\<close> that has one row
  per editor with an applied edit, is in descending order of the count, and lists the
  editors of each count in the order in which they are first seen in the edit file;
  the CSV text of its first 500 rows is the text \<open>main\<close> returns.  So two runs on the
  same inputs give the same text, with ties in first-seen order.
\<close>

theorem main_deterministic:
  "\<exists>editors csv.
     load_editors U editor_lines = Inr editors \<and>
     main U editor_lines edit_lines = Inr csv \<and>
     (\<forall>ys.
        mset ys = mset (map (spec_row U editors edit_lines)
                          (first_seen (applied_ids U edit_lines))) \<and>
        sorted_wrt (\<lambda>a b. row_count b \<le> row_count a) ys \<and>
        (\<forall>n. map row_id (filter (\<lambda>r. row_count r = n) ys)
               = filter (\<lambda>k. applied_count U edit_lines k = n)
                   (first_seen (applied_ids U edit_lines)))
        \<longrightarrow> csv = write_csv (map (\<lambda>(eid, name, cnt). (eid, Some name, cnt)) (take 500 ys)))"
proof -
  let ?fs = "first_seen (applied_ids U edit_lines)"
  let ?R = "spec_row U editors edit_lines"
  obtain editors where ed: "load_editors U editor_lines = Inr editors"
    using load_editors_total by blast
  let ?R = "spec_row U editors edit_lines"
  let ?rows = "map ?R ?fs"
  let ?csv = "write_csv (map (\<lambda>(eid, name, cnt). (eid, Some name, cnt))
                (take 500 (sort_reverse row_count ?rows)))"
  have run: "main U editor_lines edit_lines = Inr ?csv"
    by (simp add: main_def ed count_applied_edits_eq top_rows_def make_rows_spec)
  have uniq: "?csv = write_csv (map (\<lambda>(eid, name, cnt). (eid, Some name, cnt)) (take 500 ys))"
    if h: "mset ys = mset ?rows \<and>
        sorted_wrt (\<lambda>a b. row_count b \<le> row_count a) ys \<and>
        (\<forall>n. map row_id (filter (\<lambda>r. row_count r = n) ys)
               = filter (\<lambda>k. applied_count U edit_lines k = n) ?fs)" for ys
  proof -
    have id: "?R (row_id r) = r" if "r \<in> set ys" for r
    proof -
      from that h have "r \<in> set ?rows"
        by (metis mset_eq_setD)
      then show ?thesis
        by (auto simp: spec_row_def row_id_def)
    qed
    have ties: "filter (\<lambda>r. row_count r = n) ys = filter (\<lambda>r. row_count r = n) ?rows" for n
    proof -
      have "filter (\<lambda>r. row_count r = n) ?rows
          = map ?R (filter (\<lambda>k. applied_count U edit_lines k = n) ?fs)"
        by (simp add: filter_map o_def spec_row_def row_count_def)
      also have "\<dots> = map ?R (map row_id (filter (\<lambda>r. row_count r = n) ys))"
        using h by simp
      also have "\<dots> = filter (\<lambda>r. row_count r = n) ys"
        unfolding map_map by (rule map_idI) (simp add: id)
      finally show ?thesis by simp
    qed
    from h have "ys = sort_reverse row_count ?rows"
      by (intro sort_reverse_unique ties) simp_all
    then show ?thesis by simp
  qed
  from ed run uniq show ?thesis
    by blast
qed


theorem main_deterministic_witness:
  "main sample_ucd
     [ustr ''7'' @ [9] @ ustr ''bob'' @ [10]]
     [ustr ''1'' @ [9] @ ustr ''7'' @ [9] @ ustr ''0'' @ [9] @ ustr ''2'' @ [10],
      ustr ''2'' @ [9] @ ustr ''9'' @ [9] @ ustr ''0'' @ [9] @ ustr ''2'' @ [10],
      ustr ''3'' @ [9] @ ustr ''9'' @ [9] @ ustr ''0'' @ [9] @ ustr ''2'' @ [10]]
   = Inr (write_csv [(9, Some (ustr ''(editor #9)''), 2), (7, Some (ustr ''bob''), 1)])"
proof -
  let ?el = "[ustr ''7'' @ [9] @ ustr ''bob'' @ [10]]"
  let ?dl = "[ustr ''1'' @ [9] @ ustr ''7'' @ [9] @ ustr ''0'' @ [9] @ ustr ''2'' @ [10],
      ustr ''2'' @ [9] @ ustr ''9'' @ [9] @ ustr ''0'' @ [9] @ ustr ''2'' @ [10],
      ustr ''3'' @ [9] @ ustr ''9'' @ [9] @ ustr ''0'' @ [9] @ ustr ''2'' @ [10]]"
  let ?ys = "[(9, ustr ''(editor #9)'', 2), (7, ustr ''bob'', 1)] :: row list"
  obtain editors csv where ed: "load_editors sample_ucd ?el = Inr editors"
    and run: "main sample_ucd ?el ?dl = Inr csv"
    and uq: "\<forall>ys.
        mset ys = mset (map (spec_row sample_ucd editors ?dl)
                          (first_seen (applied_ids sample_ucd ?dl))) \<and>
        sorted_wrt (\<lambda>a b. row_count b \<le> row_count a) ys \<and>
        (\<forall>n. map row_id (filter (\<lambda>r. row_count r = n) ys)
               = filter (\<lambda>k. applied_count sample_ucd ?dl k = n)
                   (first_seen (applied_ids sample_ucd ?dl)))
        \<longrightarrow> csv = write_csv (map (\<lambda>(eid, name, cnt). (eid, Some name, cnt)) (take 500 ys))"
    using main_deterministic [of sample_ucd ?el ?dl] by blast
  have "load_editors sample_ucd ?el = Inr [(7, ustr ''bob'')]"
    by code_simp
  with ed have editors: "editors = [(7, ustr ''bob'')]"
    by simp
  have fs: "first_seen (applied_ids sample_ucd ?dl) = [7, 9]"
    by code_simp
  have c7: "applied_count sample_ucd ?dl 7 = 1"
    by code_simp
  have c9: "applied_count sample_ucd ?dl 9 = 2"
    by code_simp
  have rows: "map (spec_row sample_ucd [(7, ustr ''bob'')] ?dl) [7, 9]
      = [(7, ustr ''bob'', 1), (9, ustr ''(editor #9)'', 2)]"
    by code_simp
  have h1: "mset ?ys = mset (map (spec_row sample_ucd editors ?dl)
                          (first_seen (applied_ids sample_ucd ?dl)))"
    unfolding editors fs rows by simp
  have h2: "sorted_wrt (\<lambda>a b. row_count b \<le> row_count a) ?ys"
    by (simp add: row_count_def)
  have h3: "map row_id (filter (\<lambda>r. row_count r = n) ?ys)
               = filter (\<lambda>k. applied_count sample_ucd ?dl k = n)
                   (first_seen (applied_ids sample_ucd ?dl))" for n
    unfolding fs filter.simps c7 c9 by (simp add: row_count_def row_id_def)
  from uq h1 h2 h3
  have "csv = write_csv (map (\<lambda>(eid, name, cnt). (eid, Some name, cnt)) (take 500 ?ys))"
    by blast
  with run show ?thesis by simp
qed

end
